theory Spec2Isabelle
  imports Main "HOL-Library.Sublist"
begin

section \<open>Python strings\<close>

text \<open>
  A Python \<open>str\<close> is a sequence of Unicode code points; it is modelled as a list of
  natural numbers. Literals of the source are written as HOL strings and converted
  with \<open>ustr\<close>; the two non-ASCII characters of the source (the comparison signs
  U+2265 and U+2264) are written as numbers.
\<close>

type_synonym pystr = "nat list"

definition ustr :: "string \<Rightarrow> pystr" where
  "ustr s = map of_char s"

text \<open>
  The code points for which \<open>str.isspace\<close> holds. The same set is what \<open>\s\<close> matches in a
  \<open>str\<close> pattern, what \<open>str.strip()\<close> removes and what \<open>str.split()\<close> splits at.
\<close>

definition isspace :: "nat \<Rightarrow> bool" where
  "isspace c = ((9 \<le> c \<and> c \<le> 13) \<or> (28 \<le> c \<and> c \<le> 32) \<or> c = 133 \<or> c = 160 \<or> c = 5760
      \<or> (8192 \<le> c \<and> c \<le> 8202) \<or> c = 8232 \<or> c = 8233 \<or> c = 8239 \<or> c = 8287 \<or> c = 12288)"

text \<open>
  The code points \<open>\d\<close> matches in a \<open>str\<close> pattern: the decimal digits of Unicode. Beyond
  ASCII they come in the ranges listed here.
\<close>

definition decimal_ranges :: "(nat \<times> nat) list" where
  "decimal_ranges = [
      (1632, 1641), (1776, 1785), (1984, 1993), (2406, 2415), (2534, 2543),
      (2662, 2671), (2790, 2799), (2918, 2927), (3046, 3055), (3174, 3183),
      (3302, 3311), (3430, 3439), (3558, 3567), (3664, 3673), (3792, 3801),
      (3872, 3881), (4160, 4169), (4240, 4249), (6112, 6121), (6160, 6169),
      (6470, 6479), (6608, 6617), (6784, 6793), (6800, 6809), (6992, 7001),
      (7088, 7097), (7232, 7241), (7248, 7257), (42528, 42537), (43216, 43225),
      (43264, 43273), (43472, 43481), (43504, 43513), (43600, 43609), (44016, 44025),
      (65296, 65305), (66720, 66729), (68912, 68921), (69734, 69743), (69872, 69881),
      (69942, 69951), (70096, 70105), (70384, 70393), (70736, 70745), (70864, 70873),
      (71248, 71257), (71360, 71369), (71472, 71481), (71904, 71913), (72016, 72025),
      (72784, 72793), (73040, 73049), (73120, 73129), (92768, 92777), (92864, 92873),
      (93008, 93017), (120782, 120831), (123200, 123209), (123632, 123641), (125264, 125273),
      (130032, 130041)]"

definition isdecimal :: "nat \<Rightarrow> bool" where
  "isdecimal c = (if c < 128 then 48 \<le> c \<and> c \<le> 57
                  else list_ex (\<lambda>(lo, hi). lo \<le> c \<and> c \<le> hi) decimal_ranges)"

text \<open>
  Matching under \<open>re.IGNORECASE\<close> for a pattern character that is an ASCII letter or has no
  case: besides the two cases of an ASCII letter, \<open>i\<close> also matches U+0130 and U+0131,
  \<open>s\<close> matches U+017F and \<open>k\<close> matches U+212A. Two characters match when they fold to
  the same code point.
\<close>

definition casefold :: "nat \<Rightarrow> nat" where
  "casefold c = (if 65 \<le> c \<and> c \<le> 90 then c + 32
                 else if c = 304 \<or> c = 305 then 105
                 else if c = 383 then 115
                 else if c = 8490 then 107 else c)"

text \<open>\<open>s.rstrip(cs)\<close> and \<open>s.lstrip(cs)\<close> for a set of characters given as a predicate.\<close>

definition rstrip_chars :: "(nat \<Rightarrow> bool) \<Rightarrow> pystr \<Rightarrow> pystr" where
  "rstrip_chars P s = rev (dropWhile P (rev s))"

definition lstrip_chars :: "(nat \<Rightarrow> bool) \<Rightarrow> pystr \<Rightarrow> pystr" where
  "lstrip_chars P s = dropWhile P s"

text \<open>\<open>s.strip()\<close>: whitespace removed at both ends.\<close>

definition strip :: "pystr \<Rightarrow> pystr" where
  "strip s = rstrip_chars isspace (lstrip_chars isspace s)"

text \<open>\<open>s.split(sep)[0]\<close> for a one-character separator: the text before its first occurrence.\<close>

definition split_first :: "nat \<Rightarrow> pystr \<Rightarrow> pystr" where
  "split_first sep s = takeWhile (\<lambda>c. c \<noteq> sep) s"

text \<open>\<open>sep.join(xs)\<close>.\<close>

fun join :: "pystr \<Rightarrow> pystr list \<Rightarrow> pystr" where
  "join sep [] = []"
| "join sep [x] = x"
| "join sep (x # y # ys) = x @ sep @ join sep (y # ys)"

text \<open>\<open>s.split()\<close>: the maximal runs of non-whitespace characters.\<close>

function split_ws :: "pystr \<Rightarrow> pystr list" where
  "split_ws s =
     (case dropWhile isspace s of
        [] \<Rightarrow> []
      | c # cs \<Rightarrow> takeWhile (\<lambda>x. \<not> isspace x) (c # cs) #
                 split_ws (dropWhile (\<lambda>x. \<not> isspace x) cs))"
  by pat_completeness auto
termination
proof (relation "measure length")
  show "wf (measure length)" by simp
next
  fix s :: pystr and c cs
  assume a: "dropWhile isspace s = c # cs"
  have "length (dropWhile (\<lambda>x. \<not> isspace x) cs) \<le> length cs"
    by (rule length_dropWhile_le)
  moreover have "length (c # cs) \<le> length s"
    using length_dropWhile_le [of isspace s] a by simp
  ultimately show "(dropWhile (\<lambda>x. \<not> isspace x) cs, s) \<in> measure length"
    by simp
qed

text \<open>\<open>needle in s\<close> for strings.\<close>

fun contains :: "pystr \<Rightarrow> pystr \<Rightarrow> bool" where
  "contains needle [] = (needle = [])"
| "contains needle (c # cs) = (prefix needle (c # cs) \<or> contains needle cs)"

section \<open>Regular expressions of the \<open>re\<close> module\<close>

text \<open>
  The patterns of the source are written as terms of the datatype \<open>re\<close>, one constructor
  for each construct they use. A character class is a list of atoms: single characters,
  ranges, \<open>\s\<close> and \<open>\d\<close>.
\<close>

datatype catom = Ch nat | Rng nat nat | WS | DIG

fun in_atom :: "catom \<Rightarrow> nat \<Rightarrow> bool" where
  "in_atom (Ch c) x = (x = c)"
| "in_atom (Rng lo hi) x = (lo \<le> x \<and> x \<le> hi)"
| "in_atom WS x = isspace x"
| "in_atom DIG x = isdecimal x"

definition in_cls :: "catom list \<Rightarrow> nat \<Rightarrow> bool" where
  "in_cls cs x = list_ex (\<lambda>a. in_atom a x) cs"

datatype re =
    Eps                    \<comment> \<open>the empty pattern\<close>
  | Lit nat                \<comment> \<open>a literal character\<close>
  | LitI nat               \<comment> \<open>a literal character under \<open>IGNORECASE\<close>\<close>
  | Dot                    \<comment> \<open>\<open>.\<close>: any character except a newline\<close>
  | DotAll                 \<comment> \<open>\<open>.\<close> under \<open>DOTALL\<close>\<close>
  | Cls "catom list"       \<comment> \<open>\<open>[...]\<close>\<close>
  | NCls "catom list"      \<comment> \<open>\<open>[^...]\<close>\<close>
  | Seq re re
  | Alt re re              \<comment> \<open>\<open>a|b\<close>, the left branch first\<close>
  | Star re                \<comment> \<open>greedy \<open>*\<close>\<close>
  | LazyStar re            \<comment> \<open>\<open>*?\<close>\<close>
  | Opt re                 \<comment> \<open>greedy \<open>?\<close>\<close>
  | Grp nat re             \<comment> \<open>capturing group number n\<close>
  | Ahead re               \<comment> \<open>\<open>(?=...)\<close>\<close>
  | Behind "catom list"    \<comment> \<open>\<open>(?<=[...])\<close>, one character back\<close>
  | Eos                    \<comment> \<open>\<open>$\<close>: at the end, or before a final newline\<close>
  | EolM                   \<comment> \<open>\<open>$\<close> under \<open>MULTILINE\<close>: at the end, or before a newline\<close>

text \<open>
  The state of a match in progress: the character before the current position (none at
  the start of the text), the text still to be read, and the groups captured so far, the
  latest binding of a group first.
\<close>

type_synonym mstate = "nat option \<times> pystr \<times> (nat \<times> pystr) list"

definition step1 :: "(nat \<Rightarrow> bool) \<Rightarrow> mstate \<Rightarrow> mstate list" where
  "step1 P st = (case st of (p, s, g) \<Rightarrow>
      (case s of [] \<Rightarrow> [] | x # xs \<Rightarrow> if P x then [(Some x, xs, g)] else []))"

definition remaining :: "mstate \<Rightarrow> nat" where
  "remaining st = length (fst (snd st))"

text \<open>
  \<open>ms r st\<close> lists the states in which a match of \<open>r\<close> begun in \<open>st\<close> can end, in the order
  in which the backtracking matcher of \<open>re\<close> tries them: the greedy operators list the
  longer alternative first, the lazy one the shorter, an alternation its left branch. The
  match the module reports is the first of the list. An iteration of a star that reads
  nothing is not repeated.
\<close>

function (sequential) ms :: "re \<Rightarrow> mstate \<Rightarrow> mstate list" where
  "ms Eps st = [st]"
| "ms (Lit c) st = step1 (\<lambda>x. x = c) st"
| "ms (LitI c) st = step1 (\<lambda>x. casefold x = casefold c) st"
| "ms Dot st = step1 (\<lambda>x. x \<noteq> 10) st"
| "ms DotAll st = step1 (\<lambda>x. True) st"
| "ms (Cls cs) st = step1 (in_cls cs) st"
| "ms (NCls cs) st = step1 (\<lambda>x. \<not> in_cls cs x) st"
| "ms (Seq r1 r2) st = concat (map (ms r2) (ms r1 st))"
| "ms (Alt r1 r2) st = ms r1 st @ ms r2 st"
| "ms (Star r) st =
     concat (map (\<lambda>st'. if remaining st' < remaining st then ms (Star r) st' else [])
                 (ms r st)) @ [st]"
| "ms (LazyStar r) st =
     st # concat (map (\<lambda>st'. if remaining st' < remaining st then ms (LazyStar r) st' else [])
                      (ms r st))"
| "ms (Opt r) st = ms r st @ [st]"
| "ms (Grp n r) st =
     map (\<lambda>(p', s', g'). (p', s', (n, take (remaining st - length s') (fst (snd st))) # g'))
         (ms r st)"
| "ms (Ahead r) st = (if ms r st = [] then [] else [st])"
| "ms (Behind cs) st = (case fst st of None \<Rightarrow> [] | Some x \<Rightarrow> if in_cls cs x then [st] else [])"
| "ms Eos st = (if fst (snd st) = [] \<or> fst (snd st) = [10] then [st] else [])"
| "ms EolM st = (case fst (snd st) of [] \<Rightarrow> [st] | x # _ \<Rightarrow> if x = 10 then [st] else [])"
  by pat_completeness auto
termination
  by (relation "inv_image (less_than <*lex*> less_than) (\<lambda>(r, st). (size r, remaining st))") auto

text \<open>A match object: the matched text (\<open>group(0)\<close>) and the captured groups.\<close>

record rmatch =
  m_text :: pystr
  m_groups :: "(nat \<times> pystr) list"

text \<open>\<open>m.group(n)\<close>; \<open>None\<close> when group \<open>n\<close> took no part in the match.\<close>

definition grp :: "rmatch \<Rightarrow> nat \<Rightarrow> pystr option" where
  "grp m n = map_of (m_groups m) n"

text \<open>
  The match chosen at a position. Directly after an empty match the module asks for a
  match that reads something: the first such alternative is taken.
\<close>

definition pick :: "bool \<Rightarrow> mstate \<Rightarrow> mstate list \<Rightarrow> mstate option" where
  "pick must st cands = find (\<lambda>st'. \<not> must \<or> remaining st' < remaining st) cands"

text \<open>
  The scan that \<open>finditer\<close>, \<open>search\<close>, \<open>sub\<close> and \<open>split\<close> share: from left to right, the
  leftmost match, then the next one from where it ended. The result is the list of the
  matches, each with the unmatched text before it, and the unmatched text after the last
  match.
\<close>

function scan :: "re \<Rightarrow> bool \<Rightarrow> nat option \<Rightarrow> pystr \<Rightarrow> (pystr \<times> rmatch) list \<times> pystr" where
  "scan r must p s =
     (case pick must (p, s, []) (ms r (p, s, [])) of
        Some (p', s', g) \<Rightarrow>
          if length s' < length s then
            (case scan r False p' s' of (pieces, rest) \<Rightarrow>
               (([], \<lparr>m_text = take (length s - length s') s, m_groups = g\<rparr>) # pieces, rest))
          else if \<not> must then
            (case scan r True p s of (pieces, rest) \<Rightarrow>
               (([], \<lparr>m_text = [], m_groups = g\<rparr>) # pieces, rest))
          else ([], s)
      | None \<Rightarrow>
          (case s of
             [] \<Rightarrow> ([], [])
           | c # cs \<Rightarrow>
               (case scan r False (Some c) cs of
                  ([], rest) \<Rightarrow> ([], c # rest)
                | ((gap, m) # pieces, rest) \<Rightarrow> ((c # gap, m) # pieces, rest))))"
  by pat_completeness auto
termination
  by (relation "measure (\<lambda>(r, must, p, s). 2 * length s + (if must then 0 else 1))") auto

declare scan.simps [simp del]

definition finditer :: "re \<Rightarrow> pystr \<Rightarrow> rmatch list" where
  "finditer r s = map snd (fst (scan r False None s))"

definition search :: "re \<Rightarrow> pystr \<Rightarrow> rmatch option" where
  "search r s = (case finditer r s of [] \<Rightarrow> None | m # _ \<Rightarrow> Some m)"

text \<open>\<open>re.sub(r, repl, s)\<close>; the replacement is a function of the match.\<close>

definition sub_from :: "re \<Rightarrow> (rmatch \<Rightarrow> pystr) \<Rightarrow> nat option \<Rightarrow> pystr \<Rightarrow> pystr" where
  "sub_from r repl p s = (case scan r False p s of (pieces, rest) \<Rightarrow>
      concat (map (\<lambda>(gap, m). gap @ repl m) pieces) @ rest)"

definition sub :: "re \<Rightarrow> (rmatch \<Rightarrow> pystr) \<Rightarrow> pystr \<Rightarrow> pystr" where
  "sub r repl s = sub_from r repl None s"

text \<open>\<open>re.split(r, s)\<close> for a pattern without capturing groups.\<close>

definition resplit :: "re \<Rightarrow> pystr \<Rightarrow> pystr list" where
  "resplit r s = (case scan r False None s of (pieces, rest) \<Rightarrow> map fst pieces @ [rest])"

text \<open>Abbreviations for writing patterns: \<open>r+\<close>, sequences, alternatives and literal text.\<close>

definition plus :: "re \<Rightarrow> re" where
  "plus r = Seq r (Star r)"

definition seqs :: "re list \<Rightarrow> re" where
  "seqs rs = foldr Seq rs Eps"

fun alts :: "re list \<Rightarrow> re" where
  "alts [] = NCls [Rng 0 1114111]"
| "alts [r] = r"
| "alts (r # rs) = Alt r (alts rs)"

definition lit :: "string \<Rightarrow> re" where
  "lit s = seqs (map (\<lambda>c. Lit (of_char c)) s)"

definition liti :: "string \<Rightarrow> re" where
  "liti s = seqs (map (\<lambda>c. LitI (of_char c)) s)"

section \<open>Data\_Extraction.py\<close>

text \<open>\<^verbatim>\<open>def clean_url(u): return u.split("#")[0].rstrip("/")\<close>\<close>

definition clean_url :: "pystr \<Rightarrow> pystr" where
  "clean_url u = rstrip_chars (\<lambda>c. c = 47) (split_first 35 u)"

subsection \<open>Sections of an HTML page\<close>

text \<open>
  The parser of the markup is a library. What \<open>extract_all_text_with_structure\<close> reads of
  an element is its tag name, its text as \<open>get_text(strip=True)\<close> gives it, and whether
  \<open>find_parent(['script', 'style'])\<close> finds an ancestor. A page is the list of its
  elements in document order.
\<close>

record element =
  el_name :: string
  el_text :: pystr
  el_in_script :: bool

text \<open>\<open>soup.find_all(names)\<close>: the elements with one of the names, in document order.\<close>

definition find_all :: "string list \<Rightarrow> element list \<Rightarrow> element list" where
  "find_all names els = filter (\<lambda>e. el_name e \<in> set names) els"

text \<open>A section dictionary, with the keys \<open>heading\<close>, \<open>level\<close> and \<open>content\<close>.\<close>

record section_dict =
  heading :: pystr
  level :: int
  content :: "pystr list"

text \<open>\<open>int(element.name[1])\<close> for a name of two characters whose second is a digit.\<close>

definition name_digit :: "string \<Rightarrow> int" where
  "name_digit n = int (of_char (n ! 1)) - 48"

text \<open>
  The loop over the elements, with its two variables \<open>sections\<close> and \<open>current_section\<close>
  (\<open>None\<close> until the first section is opened).
\<close>

fun section_loop :: "element list \<Rightarrow> section_dict list \<times> section_dict option \<Rightarrow> section_dict list \<times> section_dict option" where
  "section_loop [] st = st"
| "section_loop (e # es) (sections, current_section) =
     (if el_in_script e then section_loop es (sections, current_section)
      else if el_text e = [] \<or> length (el_text e) < 5 then
        section_loop es (sections, current_section)
      else if el_name e \<in> set [''h1'', ''h2'', ''h3''] then
        section_loop es
          (case current_section of None \<Rightarrow> sections | Some c \<Rightarrow> sections @ [c],
           Some \<lparr>heading = el_text e, level = name_digit (el_name e), content = []\<rparr>)
      else
        (case current_section of
           None \<Rightarrow> section_loop es (sections, current_section)
         | Some c \<Rightarrow> section_loop es (sections, Some (c\<lparr>content := content c @ [el_text e]\<rparr>))))"

text \<open>The value of the key \<open>sections\<close> in the result of \<open>extract_all_text_with_structure\<close>.\<close>

definition extract_sections :: "element list \<Rightarrow> section_dict list" where
  "extract_sections els =
     (case section_loop
             (find_all [''h1'', ''h2'', ''h3'', ''h4'', ''h5'', ''h6'', ''p'', ''div'', ''section''] els)
             ([], None) of
        (sections, None) \<Rightarrow> sections
      | (sections, Some c) \<Rightarrow> sections @ [c])"

text \<open>An element at which the loop opens a section.\<close>

definition opens_section :: "element \<Rightarrow> bool" where
  "opens_section e =
     (el_name e \<in> set [''h1'', ''h2'', ''h3''] \<and> \<not> el_in_script e \<and> 5 \<le> length (el_text e))"

subsection \<open>Tables\<close>

text \<open>
  What \<open>extract_all_tables\<close> reads of a \<open>table\<close> element: the rows of its first \<open>thead\<close>
  and of its first \<open>tbody\<close>, when it has one, and all its rows (\<open>table.find_all('tr')\<close>,
  which includes those of the \<open>thead\<close>). A row is the list of the texts of its cells.
\<close>

record table_dom =
  thead :: "pystr list list option"
  tbody :: "pystr list list option"
  all_tr :: "pystr list list"

record table =
  table_index :: nat
  headers :: "pystr list"
  rows :: "pystr list list"
  row_count :: nat
  column_count :: nat

text \<open>The first row of the \<open>thead\<close> that has a cell.\<close>

definition table_headers :: "table_dom \<Rightarrow> pystr list" where
  "table_headers t =
     (case thead t of
        None \<Rightarrow> []
      | Some trs \<Rightarrow> (case find (\<lambda>header_cells. header_cells \<noteq> []) trs of
                       None \<Rightarrow> [] | Some header_cells \<Rightarrow> header_cells))"

definition table_rows :: "table_dom \<Rightarrow> pystr list list" where
  "table_rows t =
     filter (\<lambda>cells. cells \<noteq> [] \<and> cells \<noteq> table_headers t)
       (case tbody t of None \<Rightarrow> all_tr t | Some trs \<Rightarrow> trs)"

fun tables_from :: "nat \<Rightarrow> table_dom list \<Rightarrow> table list" where
  "tables_from table_idx [] = []"
| "tables_from table_idx (t # ts) =
     (if table_rows t \<noteq> [] \<or> table_headers t \<noteq> [] then
        [\<lparr>table_index = table_idx + 1,
          headers = table_headers t,
          rows = table_rows t,
          row_count = length (table_rows t),
          column_count =
            (if table_headers t \<noteq> [] then length (table_headers t)
             else (case table_rows t of [] \<Rightarrow> 0 | r # _ \<Rightarrow> length r))\<rparr>]
      else []) @ tables_from (table_idx + 1) ts"

definition extract_all_tables :: "table_dom list \<Rightarrow> table list" where
  "extract_all_tables doms = tables_from 0 doms"

subsection \<open>Paragraphs of a PDF text\<close>

text \<open>\<^verbatim>\<open>re.sub(r'\s+', ' ', s)\<close>\<close>

definition collapse_ws :: "pystr \<Rightarrow> pystr" where
  "collapse_ws s = sub (plus (Cls [WS])) (\<lambda>m. ustr '' '') s"

text \<open>\<^verbatim>\<open>(?<=[.!?])\s+(?=[A-Z])\<close>\<close>

definition sentence_break :: re where
  "sentence_break = seqs [Behind [Ch 46, Ch 33, Ch 63], plus (Cls [WS]), Ahead (Cls [Rng 65 90])]"

text \<open>The list \<open>sentences\<close> of \<open>parse_pdf_into_paragraphs\<close>.\<close>

definition pdf_sentences :: "pystr \<Rightarrow> pystr list" where
  "pdf_sentences full_text = resplit sentence_break (collapse_ws full_text)"

text \<open>The loop over the sentences, with its variables \<open>paragraphs\<close> and \<open>current_para\<close>.\<close>

fun para_loop :: "pystr list \<Rightarrow> pystr list \<times> pystr list \<Rightarrow> pystr list \<times> pystr list" where
  "para_loop [] st = st"
| "para_loop (sentence # rest) (paragraphs, current_para) =
     (if 20 < length (strip sentence) then
        (if 3 \<le> length (current_para @ [strip sentence]) then
           para_loop rest
             (paragraphs @ [join (ustr '' '') (current_para @ [strip sentence])], [])
         else para_loop rest (paragraphs, current_para @ [strip sentence]))
      else para_loop rest (paragraphs, current_para))"

definition parse_pdf_into_paragraphs :: "pystr \<Rightarrow> pystr list" where
  "parse_pdf_into_paragraphs full_text =
     (case para_loop (pdf_sentences full_text) ([], []) of
        (paragraphs, current_para) \<Rightarrow>
          if current_para \<noteq> [] then paragraphs @ [join (ustr '' '') current_para]
          else paragraphs)"

text \<open>
  The sentences that pass the length test of the loop, stripped, in order; and the loop
  run on them alone.
\<close>

definition qualifying_sentences :: "pystr \<Rightarrow> pystr list" where
  "qualifying_sentences full_text =
     filter (\<lambda>s. 20 < length s) (map strip (pdf_sentences full_text))"

fun group_loop :: "pystr list \<Rightarrow> pystr list \<times> pystr list \<Rightarrow> pystr list \<times> pystr list" where
  "group_loop [] st = st"
| "group_loop (q # qs) (paragraphs, current_para) =
     (if 3 \<le> length (current_para @ [q]) then
        group_loop qs (paragraphs @ [join (ustr '' '') (current_para @ [q])], [])
      else group_loop qs (paragraphs, current_para @ [q]))"

subsection \<open>Text of a PDF file\<close>

text \<open>
  The PDF library is a collaborator. What \<open>extract_text_from_pdf\<close> sees of it is whether
  opening the file and reading its pages raises (with the text of the exception), and
  for each page whether \<open>extract_text\<close> raises or which text it returns.
\<close>

datatype page_result = PageRaises | PageText pystr

datatype pdf_read = ReadRaises pystr | Opened "page_result list"

datatype pyval = VStr pystr | VInt int | VList "pystr list"

datatype error = KeyError | ValueError | AttributeError

text \<open>The truth value of a Python value.\<close>

fun truthy :: "pyval \<Rightarrow> bool" where
  "truthy (VStr s) = (s \<noteq> [])"
| "truthy (VInt n) = (n \<noteq> 0)"
| "truthy (VList xs) = (xs \<noteq> [])"

text \<open>The texts of the pages that do not raise and are not empty.\<close>

fun text_pages :: "page_result list \<Rightarrow> pystr list" where
  "text_pages [] = []"
| "text_pages (PageRaises # ps) = text_pages ps"
| "text_pages (PageText t # ps) = (if t \<noteq> [] then t # text_pages ps else text_pages ps)"

definition extract_text_from_pdf :: "bool \<Rightarrow> pdf_read \<Rightarrow> (string \<rightharpoonup> pyval)" where
  "extract_text_from_pdf PDF_SUPPORT rd =
     (if \<not> PDF_SUPPORT then
        [''full_text'' \<mapsto> VStr [], ''page_count'' \<mapsto> VInt 0,
         ''error'' \<mapsto> VStr (ustr ''PyPDF2 not installed'')]
      else
        (case rd of
           ReadRaises e \<Rightarrow>
             [''full_text'' \<mapsto> VStr [], ''page_count'' \<mapsto> VInt 0, ''error'' \<mapsto> VStr e]
         | Opened pages \<Rightarrow>
             (let full_text = join (ustr [CHR 0x0A, CHR 0x0A]) (text_pages pages);
                  full_text_clean = collapse_ws full_text;
                  paragraphs = parse_pdf_into_paragraphs full_text_clean
              in [''full_text'' \<mapsto> VStr full_text_clean,
                  ''page_count'' \<mapsto> VInt (int (length pages)),
                  ''word_count'' \<mapsto> VInt (int (length (split_ws full_text_clean))),
                  ''char_count'' \<mapsto> VInt (int (length full_text_clean)),
                  ''paragraphs'' \<mapsto> VList paragraphs,
                  ''paragraph_count'' \<mapsto> VInt (int (length paragraphs))])))"

text \<open>\<open>d[k]\<close>, which raises \<open>KeyError\<close> for a missing key.\<close>

definition getitem :: "(string \<rightharpoonup> pyval) \<Rightarrow> string \<Rightarrow> error + pyval" where
  "getitem d k = (case d k of None \<Rightarrow> Inl KeyError | Some v \<Rightarrow> Inr v)"

text \<open>\<open>s.replace(old, new)\<close> for a non-empty \<open>old\<close>.\<close>

fun replace_all :: "pystr \<Rightarrow> pystr \<Rightarrow> pystr \<Rightarrow> pystr" where
  "replace_all old new [] = []"
| "replace_all old new (c # cs) =
     (if old \<noteq> [] \<and> prefix old (c # cs) then new @ replace_all old new (drop (length old) (c # cs))
      else c # replace_all old new cs)"

text \<open>\<open>s.split(sep)[-1]\<close> for a one-character separator.\<close>

definition split_last :: "nat \<Rightarrow> pystr \<Rightarrow> pystr" where
  "split_last sep s = rev (takeWhile (\<lambda>c. c \<noteq> sep) (rev s))"

text \<open>
  \<open>process_pdf\<close>, the caller. The download is a collaborator too: \<open>downloaded\<close> is the
  path \<open>download_pdf\<close> returns, or \<open>None\<close>.
\<close>

definition pdf_title :: "pystr \<Rightarrow> pystr" where
  "pdf_title url =
     replace_all (ustr ''-'') (ustr '' '')
       (replace_all (ustr ''_'') (ustr '' '')
          (replace_all (ustr ''.pdf'') [] (split_last 47 url)))"

definition process_pdf ::
  "pystr \<Rightarrow> pystr option \<Rightarrow> bool \<Rightarrow> pdf_read \<Rightarrow> error + (string \<rightharpoonup> pyval) option" where
  "process_pdf url downloaded PDF_SUPPORT rd =
     (case downloaded of
        None \<Rightarrow> Inr None
      | Some pdf_path \<Rightarrow>
          (let extracted_data = extract_text_from_pdf PDF_SUPPORT rd in
           (case getitem extracted_data ''full_text'' of
              Inl e \<Rightarrow> Inl e
            | Inr full_text \<Rightarrow>
                (if \<not> truthy full_text then Inr None
                 else
                   (case getitem extracted_data ''char_count'' of
                      Inl e \<Rightarrow> Inl e
                    | Inr char_count \<Rightarrow>
                        (case getitem extracted_data ''word_count'' of
                           Inl e \<Rightarrow> Inl e
                         | Inr word_count \<Rightarrow>
                             (case getitem extracted_data ''page_count'' of
                                Inl e \<Rightarrow> Inl e
                              | Inr page_count \<Rightarrow>
                                  Inr (Some
                                    [''title'' \<mapsto> VStr (pdf_title url),
                                     ''full_text'' \<mapsto> full_text,
                                     ''full_text_length'' \<mapsto> char_count,
                                     ''word_count'' \<mapsto> word_count,
                                     ''page_count'' \<mapsto> page_count,
                                     ''paragraphs'' \<mapsto>
                                       (case extracted_data ''paragraphs'' of
                                          None \<Rightarrow> VList [] | Some v \<Rightarrow> v),
                                     ''paragraph_count'' \<mapsto>
                                       (case extracted_data ''paragraph_count'' of
                                          None \<Rightarrow> VInt 0 | Some v \<Rightarrow> v),
                                     ''pdf_path'' \<mapsto> VStr pdf_path]))))))))"

subsection \<open>Links\<close>

definition REJECT_PATTERNS :: "pystr list" where
  "REJECT_PATTERNS = map ustr
     [''/forums'', ''/home'', ''/about'', ''/contact'', ''/subscribe'',
      ''facebook.com'', ''twitter.com'', ''linkedin.com'', ''youtube.com'']"

text \<open>
  \<open>urlparse\<close> and \<open>str.lower\<close> belong to the standard library. Of the result of
  \<open>urlparse\<close> the function \<open>is_valid_content_link\<close> reads the fields \<open>netloc\<close> and \<open>path\<close>;
  \<open>urlparse\<close> raises \<open>ValueError\<close> on some malformed hosts. Both are parameters of the
  model: the lower-casing function and the parser, which returns the two fields or the
  error.
\<close>

record url_parts =
  netloc :: pystr
  path :: pystr

definition is_valid_content_link ::
  "(pystr \<Rightarrow> pystr) \<Rightarrow> (pystr \<Rightarrow> error + url_parts) \<Rightarrow> pystr \<Rightarrow> pystr \<Rightarrow> error + bool" where
  "is_valid_content_link lower urlparse url base_url =
     (if url = [] \<or> url = base_url then Inr False
      else if list_ex (\<lambda>pattern. contains pattern (lower url)) REJECT_PATTERNS then Inr False
      else
        (case urlparse url of
           Inl e \<Rightarrow> Inl e
         | Inr parsed \<Rightarrow>
             if list_ex (\<lambda>domain. contains domain (netloc parsed))
                  (map ustr [''journals.lww.com'', ''doi.org'', ''pubmed''])
             then Inr True
             else if suffix (ustr ''.pdf'') url \<or> contains (ustr ''/sites/default/files/'') url
             then Inr True
             else if contains (ustr ''aasld.org'') (netloc parsed) \<and>
                     contains (ustr ''/practice-guidelines/'') url
             then
               (case urlparse base_url of
                  Inl e \<Rightarrow> Inl e
                | Inr base_parsed \<Rightarrow>
                    (let base_path = rstrip_chars (\<lambda>c. c = 47) (path base_parsed);
                         url_path = rstrip_chars (\<lambda>c. c = 47) (path parsed)
                     in if url_path \<noteq> base_path \<and> prefix base_path url_path then Inr True
                        else Inr False))
             else Inr False))"

text \<open>
  The two library functions on the URLs the examples use. \<open>ascii_lower\<close> is \<open>str.lower\<close>
  on ASCII text. \<open>urlparse_plain\<close> is \<open>urlparse\<close> on a URL of the shape
  \<open>scheme://netloc/path?query#fragment\<close> without brackets in the host and without
  parameters after a semicolon: the scheme ends at the first colon, the host begins after
  \<open>//\<close> and ends before the first of \<open>/\<close>, \<open>?\<close> and \<open>#\<close>, and the path ends before the
  first \<open>#\<close> or \<open>?\<close>.
\<close>

definition ascii_lower :: "pystr \<Rightarrow> pystr" where
  "ascii_lower s = map (\<lambda>c. if 65 \<le> c \<and> c \<le> 90 then c + 32 else c) s"

definition urlparse_plain :: "pystr \<Rightarrow> error + url_parts" where
  "urlparse_plain url =
     (let after_scheme = (if 58 \<in> set url then tl (dropWhile (\<lambda>c. c \<noteq> 58) url) else url);
          is_delim = (\<lambda>c. c = 47 \<or> c = 63 \<or> c = 35);
          host = (if prefix (ustr ''//'') after_scheme
                  then takeWhile (\<lambda>c. \<not> is_delim c) (drop 2 after_scheme) else []);
          rest = (if prefix (ustr ''//'') after_scheme
                  then dropWhile (\<lambda>c. \<not> is_delim c) (drop 2 after_scheme) else after_scheme)
      in Inr \<lparr>netloc = host, path = takeWhile (\<lambda>c. c \<noteq> 35 \<and> c \<noteq> 63) rest\<rparr>)"

text \<open>
  The condition as the specification words it, for comparison with the function: the
  link is not empty and not the page itself, matches no reject pattern, and (a) its host
  is a journal or resolver host, or (b) its path ends in \<open>.pdf\<close> or contains the file
  storage segment, or (c) its host is the site's and its path extends the path of the
  page by whole segments.
\<close>

definition strict_descendant :: "pystr \<Rightarrow> pystr \<Rightarrow> bool" where
  "strict_descendant p b =
     prefix (rstrip_chars (\<lambda>c. c = 47) b @ ustr ''/'') (rstrip_chars (\<lambda>c. c = 47) p)"

definition link_condition_as_specified ::
  "(pystr \<Rightarrow> pystr) \<Rightarrow> (pystr \<Rightarrow> error + url_parts) \<Rightarrow> pystr \<Rightarrow> pystr \<Rightarrow> bool" where
  "link_condition_as_specified lower urlparse url base_url =
     (url \<noteq> [] \<and> url \<noteq> base_url \<and>
      \<not> list_ex (\<lambda>pattern. contains pattern (lower url)) REJECT_PATTERNS \<and>
      (case (urlparse url, urlparse base_url) of
         (Inr parsed, Inr base_parsed) \<Rightarrow>
           list_ex (\<lambda>domain. contains domain (netloc parsed))
             (map ustr [''journals.lww.com'', ''doi.org'', ''pubmed'']) \<or>
           suffix (ustr ''.pdf'') (path parsed) \<or>
           contains (ustr ''/sites/default/files/'') (path parsed) \<or>
           (contains (ustr ''aasld.org'') (netloc parsed) \<and>
            strict_descendant (path parsed) (path base_parsed))
       | _ \<Rightarrow> False))"


section \<open>clean\_data.py\<close>

subsection \<open>The text cleaner\<close>

text \<open>
  \<open>NAVIGATION_PATTERNS\<close>, in the order of the source. They are used with \<open>IGNORECASE\<close>.
  All are literal text, but for three: two have \<open>.*\<close> in the middle, and one has an
  escaped question mark.
\<close>

definition NAVIGATION_PATTERNS :: "re list" where
  "NAVIGATION_PATTERNS = [
      liti ''AASLD PublicationsHepatologyLiver TransplantationHepatology CommunicationsClinical Liver Disease'',
      liti ''Visit our other sites'',
      liti ''Log inorRegister'',
      liti ''Subscribe to journal'',
      liti ''Get new issue alerts'',
      liti ''AASLD Member? Login here'',
      liti ''Subscribe to eTOC'',
      liti ''Enter your Email address:'',
      liti ''Privacy Policy'',
      liti ''Journal Logo'',
      liti ''ArticlesArticlesAdvanced Search'',
      liti ''Toggle navigation'',
      liti ''BrowsingHistory'',
      liti ''Back to Top'',
      liti ''Never Miss an Issue'',
      liti ''Get new journal Tables of Contents'',
      liti ''Customer Service'',
      liti ''Contact us at:'',
      liti ''Submit a Service Request'',
      liti ''Manage Cookie Preferences'',
      seqs [liti ''Copyright'', Star Dot, liti ''American Association for the Study of Liver Diseases''],
      liti ''Content use for text and data mining and artificial intelligence training is not permitted'',
      liti ''Your PrivacyTo give you the best possible experience'',
      liti ''Accept All Cookies'',
      liti ''Privacy Preference Center'',
      liti ''Strictly Necessary Cookies'',
      liti ''Functional Cookies'',
      liti ''Performance Cookies'',
      liti ''Advertising Cookies'',
      seqs [liti ''Flash Player'', Star Dot, liti ''required''],
      liti ''Get Adobe Flash Player'',
      liti ''Email to Colleague'',
      seqs [liti ''Colleague'', LitI 39, liti ''s E-mail is Invalid''],
      liti ''Your message has been successfully sent'',
      liti ''Some error has occurred while processing your request'',
      liti ''Export toEnd Note'',
      liti ''ProciteReference Manager'',
      liti ''Save my selection'',
      liti ''DownloadPDF'',
      liti ''CiteCopy'',
      liti ''ShareEmailFacebookXLinkedIn'',
      liti ''FavoritesPermissions'',
      liti ''Related Articles'',
      liti ''Readers Of this Article Also Read'',
      liti ''Most Popular'']"

text \<open>The loop \<^verbatim>\<open>for pattern in NAVIGATION_PATTERNS: text = re.sub(pattern, '', text)\<close>.\<close>

definition strip_navigation :: "pystr \<Rightarrow> pystr" where
  "strip_navigation text = foldl (\<lambda>text pattern. sub pattern (\<lambda>m. []) text) text NAVIGATION_PATTERNS"

text \<open>
  The text of a group in a replacement template (\<open>\1\<close>); a group that took no part in
  the match gives the empty string.
\<close>

definition template_group :: "rmatch \<Rightarrow> nat \<Rightarrow> pystr" where
  "template_group m n = (case grp m n of None \<Rightarrow> [] | Some t \<Rightarrow> t)"

text \<open>The substitutions of \<open>clean_text\<close> after the loop, one definition for each.\<close>

text \<open>\<^verbatim>\<open>re.sub(r'\n\s*\n+', '\n\n', text)\<close>\<close>

definition collapse_newlines :: "pystr \<Rightarrow> pystr" where
  "collapse_newlines text =
     sub (seqs [Lit 10, Star (Cls [WS]), plus (Lit 10)]) (\<lambda>m. [10, 10]) text"

text \<open>\<^verbatim>\<open>re.sub(r'[ \t]+', ' ', text)\<close>\<close>

definition collapse_blanks :: "pystr \<Rightarrow> pystr" where
  "collapse_blanks text = sub (plus (Cls [Ch 32, Ch 9])) (\<lambda>m. ustr '' '') text"

text \<open>\<^verbatim>\<open>re.sub(r'([a-z])([A-Z])', r'\1 \2', text)\<close>\<close>

definition space_camel_case :: "pystr \<Rightarrow> pystr" where
  "space_camel_case text =
     sub (seqs [Grp 1 (Cls [Rng 97 122]), Grp 2 (Cls [Rng 65 90])])
       (\<lambda>m. template_group m 1 @ ustr '' '' @ template_group m 2) text"

text \<open>\<^verbatim>\<open>re.sub(r'([\.!?])([A-Z])', r'\1 \2', text)\<close>\<close>

definition space_after_sentence :: "pystr \<Rightarrow> pystr" where
  "space_after_sentence text =
     sub (seqs [Grp 1 (Cls [Ch 46, Ch 33, Ch 63]), Grp 2 (Cls [Rng 65 90])])
       (\<lambda>m. template_group m 1 @ ustr '' '' @ template_group m 2) text"

text \<open>\<^verbatim>\<open>re.sub(r'\.{3,}', '...', text)\<close>\<close>

definition collapse_dots :: "pystr \<Rightarrow> pystr" where
  "collapse_dots text = sub (seqs [Lit 46, Lit 46, Lit 46, Star (Lit 46)]) (\<lambda>m. ustr ''...'') text"

text \<open>\<^verbatim>\<open>re.sub(r'-{3,}', '---', text)\<close>\<close>

definition collapse_dashes :: "pystr \<Rightarrow> pystr" where
  "collapse_dashes text = sub (seqs [Lit 45, Lit 45, Lit 45, Star (Lit 45)]) (\<lambda>m. ustr ''---'') text"

text \<open>\<^verbatim>\<open>re.sub(r'Copyright.*$', '', text, flags=re.MULTILINE | re.DOTALL)\<close>\<close>

definition cut_copyright :: "pystr \<Rightarrow> pystr" where
  "cut_copyright text = sub (seqs [lit ''Copyright'', Star DotAll, EolM]) (\<lambda>m. []) text"

text \<open>The part of \<open>clean_text\<close> after the loop over the navigation patterns.\<close>

definition normalize_text :: "pystr \<Rightarrow> pystr" where
  "normalize_text text =
     strip (cut_copyright (collapse_dashes (collapse_dots (space_after_sentence
       (space_camel_case (collapse_blanks (collapse_newlines (collapse_ws text))))))))"

definition clean_text :: "pystr \<Rightarrow> pystr" where
  "clean_text text = (if text = [] then [] else normalize_text (strip_navigation text))"

subsection \<open>Recommendations\<close>

text \<open>
  \<^verbatim>\<open>Recommendation\s+(\d+)[:\s]+(.*?)(?=Recommendation\s+\d+|Case\s+\d+|$|Summary)\<close>
  with \<open>IGNORECASE\<close> and \<open>DOTALL\<close>.
\<close>

definition rec_pattern :: re where
  "rec_pattern = seqs [
     liti ''Recommendation'', plus (Cls [WS]), Grp 1 (plus (Cls [DIG])),
     plus (Cls [Ch 58, WS]), Grp 2 (LazyStar DotAll),
     Ahead (alts [seqs [liti ''Recommendation'', plus (Cls [WS]), plus (Cls [DIG])],
                  seqs [liti ''Case'', plus (Cls [WS]), plus (Cls [DIG])],
                  Eos,
                  liti ''Summary''])]"

text \<open>\<^verbatim>\<open>\((Strong|Conditional|Weak)\s+recommendation[^)]+\)\<close>\<close>

definition grade_pattern :: re where
  "grade_pattern = seqs [
     Lit 40, Grp 1 (alts [lit ''Strong'', lit ''Conditional'', lit ''Weak'']), plus (Cls [WS]),
     lit ''recommendation'', plus (NCls [Ch 41]), Lit 41]"

text \<open>\<^verbatim>\<open>\((?:high|moderate|low|very low)\s+certainty\)\<close> with \<open>IGNORECASE\<close>.\<close>

definition certainty_pattern :: re where
  "certainty_pattern = seqs [
     Lit 40, alts [liti ''high'', liti ''moderate'', liti ''low'', liti ''very low''],
     plus (Cls [WS]), liti ''certainty'', Lit 41]"

text \<open>A recommendation dictionary; the field \<open>text_of\<close> is its key \<open>text\<close>.\<close>

record recommendation =
  number :: "pystr option"
  text_of :: pystr
  grade :: "pystr option"
  certainty :: "pystr option"
  raw_text :: pystr

text \<open>
  The loop over the matches. \<open>match.group(2).strip()\<close> raises \<open>AttributeError\<close> when the
  group is \<open>None\<close>.
\<close>

fun recommendations_of :: "rmatch list \<Rightarrow> error + recommendation list" where
  "recommendations_of [] = Inr []"
| "recommendations_of (m # matches) =
     (case grp m 2 of
        None \<Rightarrow> Inl AttributeError
      | Some g2 \<Rightarrow>
          (let rec_num = grp m 1;
               rec_text = strip g2;
               grade = (case search grade_pattern rec_text of
                          None \<Rightarrow> None | Some grade_match \<Rightarrow> grp grade_match 1);
               certainty = (case search certainty_pattern rec_text of
                          None \<Rightarrow> None | Some certainty_match \<Rightarrow> Some (m_text certainty_match));
               cleaned = clean_text rec_text
           in (case recommendations_of matches of
                 Inl e \<Rightarrow> Inl e
               | Inr recommendations \<Rightarrow>
                   Inr ((if cleaned \<noteq> [] then
                           [\<lparr>number = rec_num, text_of = cleaned, grade = grade,
                              certainty = certainty, raw_text = m_text m\<rparr>]
                         else []) @ recommendations))))"

definition extract_recommendations :: "pystr \<Rightarrow> error + recommendation list" where
  "extract_recommendations text = recommendations_of (finditer rec_pattern text)"

subsection \<open>Clinical values\<close>

text \<open>
  The dictionaries \<open>extract_clinical_values\<close> builds have the key \<open>type\<close>, either
  \<open>dosage\<close> or \<open>threshold\<close>, and the keys \<open>value\<close>, \<open>number\<close>, \<open>unit\<close> and, for a
  threshold, \<open>operator\<close>: a tagged union. The fields of \<open>Dosage\<close> are \<open>value\<close>, \<open>number\<close>,
  \<open>unit\<close>; those of \<open>Threshold\<close> are \<open>value\<close>, \<open>operator\<close>, \<open>number\<close>, \<open>unit\<close>.
\<close>

datatype clinical_value =
    Dosage pystr "pystr option" "pystr option"
  | Threshold pystr "pystr option" "pystr option" "pystr option"

fun vtype :: "clinical_value \<Rightarrow> string" where
  "vtype (Dosage v n u) = ''dosage''"
| "vtype (Threshold v opr n u) = ''threshold''"

text \<open>
  \<^verbatim>\<open>(\d+(?:\.\d+)?)\s*(mg|mcg|IU/mL|U/L|IU|mL|kg)\s*(?:orally|subcutaneously|daily|weekly|monthly)?\<close>
  with \<open>IGNORECASE\<close>.
\<close>

definition dosage_pattern :: re where
  "dosage_pattern = seqs [
     Grp 1 (seqs [plus (Cls [DIG]), Opt (seqs [Lit 46, plus (Cls [DIG])])]),
     Star (Cls [WS]),
     Grp 2 (alts [liti ''mg'', liti ''mcg'', liti ''IU/mL'', liti ''U/L'', liti ''IU'',
                  liti ''mL'', liti ''kg'']),
     Star (Cls [WS]),
     Opt (alts [liti ''orally'', liti ''subcutaneously'', liti ''daily'', liti ''weekly'',
                liti ''monthly''])]"

text \<open>
  \<^verbatim>\<open>(>=|<=|<|>|>=|<=)\s*(\d+(?:,\d+)?)\s*(IU/mL|U/L|IU|mg/dL|years?|months?|weeks?|days?)\<close>
  with \<open>IGNORECASE\<close>, where the first two alternatives of the first group are the single
  characters U+2265 and U+2264 in the source.
\<close>

definition threshold_pattern :: re where
  "threshold_pattern = seqs [
     Grp 1 (alts [Lit 8805, Lit 8804, Lit 60, Lit 62, lit ''>='', lit ''<='']),
     Star (Cls [WS]),
     Grp 2 (seqs [plus (Cls [DIG]), Opt (seqs [Lit 44, plus (Cls [DIG])])]),
     Star (Cls [WS]),
     Grp 3 (alts [liti ''IU/mL'', liti ''U/L'', liti ''IU'', liti ''mg/dL'',
                  seqs [liti ''year'', Opt (LitI 115)], seqs [liti ''month'', Opt (LitI 115)],
                  seqs [liti ''week'', Opt (LitI 115)], seqs [liti ''day'', Opt (LitI 115)]])]"

definition extract_clinical_values :: "pystr \<Rightarrow> clinical_value list" where
  "extract_clinical_values text =
     map (\<lambda>m. Dosage (m_text m) (grp m 1) (grp m 2)) (finditer dosage_pattern text) @
     map (\<lambda>m. Threshold (m_text m) (grp m 1) (grp m 2) (grp m 3))
         (finditer threshold_pattern text)"

subsection \<open>The substitutions of the cleaner as list functions\<close>

text \<open>
  What the substitutions of \<open>clean_text\<close> compute, written as recursive functions on the
  text; the section on the cleaner proves that they agree with the substitutions.
  \<open>replace_runs P r\<close> replaces every maximal run of characters satisfying \<open>P\<close> by \<open>r\<close>;
  \<open>insert_space A B\<close> puts a space between a character satisfying \<open>A\<close> and a directly
  following one satisfying \<open>B\<close>; \<open>shorten_runs c\<close> shortens every run of three or more
  \<open>c\<close> to three; \<open>cut_at w\<close> keeps the text before the first occurrence of \<open>w\<close>.
\<close>

function replace_runs :: "(nat \<Rightarrow> bool) \<Rightarrow> pystr \<Rightarrow> pystr \<Rightarrow> pystr" where
  "replace_runs P r [] = []"
| "replace_runs P r (c # cs) =
     (if P c then r @ replace_runs P r (dropWhile P cs) else c # replace_runs P r cs)"
  by pat_completeness auto
termination
  by (relation "measure (\<lambda>(P, r, s). length s)")
     (auto simp: le_imp_less_Suc length_dropWhile_le)

fun insert_space :: "(nat \<Rightarrow> bool) \<Rightarrow> (nat \<Rightarrow> bool) \<Rightarrow> pystr \<Rightarrow> pystr" where
  "insert_space A B (a # b # cs) =
     (if A a \<and> B b then a # 32 # b # insert_space A B cs
      else a # insert_space A B (b # cs))"
| "insert_space A B cs = cs"

function shorten_runs :: "nat \<Rightarrow> pystr \<Rightarrow> pystr" where
  "shorten_runs c [] = []"
| "shorten_runs c (x # xs) =
     (if prefix [c, c, c] (x # xs)
      then [c, c, c] @ shorten_runs c (dropWhile (\<lambda>y. y = c) (drop 2 xs))
      else x # shorten_runs c xs)"
  by pat_completeness auto
termination
proof (relation "measure (\<lambda>(c, s). length s)")
  show "wf (measure (\<lambda>(c, s). length s))" by simp
next
  fix c x :: nat and xs :: pystr
  have "length (dropWhile (\<lambda>y. y = c) (drop 2 xs)) \<le> length (drop 2 xs)"
    by (rule length_dropWhile_le)
  then show "((c, dropWhile (\<lambda>y. y = c) (drop 2 xs)), (c, x # xs)) \<in> measure (\<lambda>(c, s). length s)"
    by simp
next
  fix c x :: nat and xs :: pystr
  show "((c, xs), (c, x # xs)) \<in> measure (\<lambda>(c, s). length s)"
    by simp
qed

fun cut_at :: "pystr \<Rightarrow> pystr \<Rightarrow> pystr" where
  "cut_at w [] = []"
| "cut_at w (c # cs) = (if prefix w (c # cs) then [] else c # cut_at w cs)"

text \<open>The character classes \<open>[a-z]\<close>, \<open>[A-Z]\<close> and \<open>[\.!?]\<close>.\<close>

definition is_lower :: "nat \<Rightarrow> bool" where
  "is_lower c = (97 \<le> c \<and> c \<le> 122)"

definition is_upper :: "nat \<Rightarrow> bool" where
  "is_upper c = (65 \<le> c \<and> c \<le> 90)"

definition is_stop :: "nat \<Rightarrow> bool" where
  "is_stop c = (c = 46 \<or> c = 33 \<or> c = 63)"

text \<open>
  Properties of a text that the substitutions establish. In a \<open>tidy\<close> text the only
  whitespace character is the space and no two spaces are adjacent; \<open>pair_free A B\<close>
  holds when no character satisfying \<open>A\<close> is directly followed by one satisfying \<open>B\<close>.
\<close>

definition pair_free :: "(nat \<Rightarrow> bool) \<Rightarrow> (nat \<Rightarrow> bool) \<Rightarrow> pystr \<Rightarrow> bool" where
  "pair_free A B s = successively (\<lambda>a b. \<not> (A a \<and> B b)) s"

definition tidy :: "pystr \<Rightarrow> bool" where
  "tidy s = (list_all (\<lambda>c. \<not> isspace c \<or> c = 32) s \<and> pair_free isspace isspace s)"

text \<open>The texts on which the part of \<open>clean_text\<close> after the loop changes nothing.\<close>

definition normal_text :: "pystr \<Rightarrow> bool" where
  "normal_text t =
     (tidy t \<and> pair_free is_lower is_upper t \<and> pair_free is_stop is_upper t \<and>
      \<not> sublist [46, 46, 46, 46] t \<and> \<not> sublist [45, 45, 45, 45] t \<and>
      \<not> sublist (ustr ''Copyright'') t \<and> strip t = t)"

text \<open>No navigation pattern matches anywhere in the text.\<close>

definition no_navigation_match :: "pystr \<Rightarrow> bool" where
  "no_navigation_match t = list_all (\<lambda>p. search p t = None) NAVIGATION_PATTERNS"


section \<open>Evaluation of patterns on concrete text\<close>

lemmas re_eval =
  finditer_def search_def sub_def sub_from_def resplit_def scan.simps pick_def seqs_def lit_def liti_def
  plus_def ustr_def step1_def remaining_def in_cls_def isspace_def isdecimal_def casefold_def
  grp_def

section \<open>URL canonicalisation\<close>

lemma split_first_hash_append:
  "split_first 35 (u @ 35 # frag) = split_first 35 u"
  by (induction u) (simp_all add: split_first_def)

lemma split_first_slash_append:
  "split_first 35 (u @ [47]) =
     (if 35 \<in> set u then split_first 35 u else split_first 35 u @ [47])"
  by (induction u) (simp_all add: split_first_def)

lemma rstrip_slash_snoc:
  "rstrip_chars (\<lambda>c. c = 47) (s @ [47]) = rstrip_chars (\<lambda>c. c = 47) s"
  by (simp add: rstrip_chars_def)

text \<open>
  Claim C9. Canonicalisation absorbs a fragment and a trailing slash: for every string
  \<open>u\<close> and every fragment \<open>frag\<close>, \<open>clean_url (u + "#" + frag) = clean_url u\<close> and
  \<open>clean_url (u + "/") = clean_url u\<close>.
\<close>

theorem clean_url_absorbs_fragment_and_slash:
  "clean_url (u @ ustr ''#'' @ frag) = clean_url u \<and>
   clean_url (u @ ustr ''/'') = clean_url u"
proof
  show "clean_url (u @ ustr ''#'' @ frag) = clean_url u"
    by (simp add: clean_url_def ustr_def split_first_hash_append)
next
  show "clean_url (u @ ustr ''/'') = clean_url u"
    by (simp add: clean_url_def ustr_def split_first_slash_append rstrip_slash_snoc)
qed

section \<open>Clinical values\<close>

lemma dosage_example:
  "extract_clinical_values (ustr ''administer 400 mg orally'') =
     [Dosage (ustr ''400 mg orally'') (Some (ustr ''400'')) (Some (ustr ''mg''))]"
  by (simp add: extract_clinical_values_def dosage_pattern_def threshold_pattern_def re_eval)

lemma threshold_example:
  "extract_clinical_values (ustr ''ALT '' @ [8805] @ ustr '' 1,000 U/L'') =
     [Dosage (ustr ''000 U/L'') (Some (ustr ''000'')) (Some (ustr ''U/L'')),
      Threshold ([8805] @ ustr '' 1,000 U/L'') (Some [8805]) (Some (ustr ''1,000''))
        (Some (ustr ''U/L''))]"
  by (simp add: extract_clinical_values_def dosage_pattern_def threshold_pattern_def re_eval)

text \<open>
  Claim C3, as amended. On \<open>administer 400 mg orally\<close> the extractor yields exactly one
  value, a dosage with number \<open>400\<close> and unit \<open>mg\<close>. On \<open>ALT \<ge> 1,000 U/L\<close> it yields two
  values: first a dosage with number \<open>000\<close> and unit \<open>U/L\<close>, which the dosage pass finds in
  the digits after the comma, and then the threshold with the operator U+2265, number
  \<open>1,000\<close> and unit \<open>U/L\<close>.
\<close>

theorem clinical_value_examples:
  "extract_clinical_values (ustr ''administer 400 mg orally'') =
     [Dosage (ustr ''400 mg orally'') (Some (ustr ''400'')) (Some (ustr ''mg''))] \<and>
   extract_clinical_values (ustr ''ALT '' @ [8805] @ ustr '' 1,000 U/L'') =
     [Dosage (ustr ''000 U/L'') (Some (ustr ''000'')) (Some (ustr ''U/L'')),
      Threshold ([8805] @ ustr '' 1,000 U/L'') (Some [8805]) (Some (ustr ''1,000''))
        (Some (ustr ''U/L''))]"
  using dosage_example threshold_example by blast

text \<open>
  The claim as stated fails on its second input: the result there does not have exactly
  one element.
\<close>

theorem threshold_example_not_single:
  "length (extract_clinical_values (ustr ''ALT '' @ [8805] @ ustr '' 1,000 U/L'')) \<noteq> 1"
  by (simp only: threshold_example) simp

lemma vtype_dosage_pass:
  "v \<in> set (map (\<lambda>m. Dosage (m_text m) (grp m 1) (grp m 2)) xs) \<Longrightarrow> vtype v = ''dosage''"
  by auto

lemma vtype_threshold_pass:
  "v \<in> set (map (\<lambda>m. Threshold (m_text m) (grp m 1) (grp m 2) (grp m 3)) xs)
     \<Longrightarrow> vtype v = ''threshold''"
  by auto

lemma passes_in_order:
  assumes ds: "\<And>v. v \<in> set ds \<Longrightarrow> vtype v = ''dosage''"
    and ts: "\<And>v. v \<in> set ts \<Longrightarrow> vtype v = ''threshold''"
    and i: "i < length (ds @ ts)" and j: "j < length (ds @ ts)"
    and vi: "vtype ((ds @ ts) ! i) = ''dosage''"
    and vj: "vtype ((ds @ ts) ! j) = ''threshold''"
  shows "i < j"
proof -
  have "i < length ds"
  proof (rule ccontr)
    assume "\<not> i < length ds"
    then have "(ds @ ts) ! i = ts ! (i - length ds)" and "i - length ds < length ts"
      using i by (simp_all add: nth_append)
    then have "vtype ((ds @ ts) ! i) = ''threshold''"
      using ts by simp
    with vi show False by simp
  qed
  moreover have "length ds \<le> j"
  proof (rule ccontr)
    assume "\<not> length ds \<le> j"
    then have "(ds @ ts) ! j = ds ! j" and "j < length ds"
      by (simp_all add: nth_append)
    then have "vtype ((ds @ ts) ! j) = ''dosage''"
      using ds by simp
    with vj show False by simp
  qed
  ultimately show ?thesis by simp
qed

text \<open>
  Claim C10. In the list \<open>extract_clinical_values\<close> returns for any text, every value of
  type \<open>dosage\<close> comes before every value of type \<open>threshold\<close>: the results of the dosage
  pass are appended first, then those of the threshold pass.
\<close>

theorem dosages_before_thresholds:
  assumes "i < length (extract_clinical_values text)"
    and "j < length (extract_clinical_values text)"
    and "vtype (extract_clinical_values text ! i) = ''dosage''"
    and "vtype (extract_clinical_values text ! j) = ''threshold''"
  shows "i < j"
  using assms unfolding extract_clinical_values_def
  by (rule passes_in_order [OF vtype_dosage_pass vtype_threshold_pass, rotated 2])

theorem dosages_before_thresholds_witness:
  "0 < length (extract_clinical_values (ustr ''ALT '' @ [8805] @ ustr '' 1,000 U/L'')) \<and>
   1 < length (extract_clinical_values (ustr ''ALT '' @ [8805] @ ustr '' 1,000 U/L'')) \<and>
   vtype (extract_clinical_values (ustr ''ALT '' @ [8805] @ ustr '' 1,000 U/L'') ! 0) = ''dosage'' \<and>
   vtype (extract_clinical_values (ustr ''ALT '' @ [8805] @ ustr '' 1,000 U/L'') ! 1) = ''threshold'' \<and>
   (0::nat) < 1"
  using dosages_before_thresholds [of 0 "ustr ''ALT '' @ [8805] @ ustr '' 1,000 U/L''" 1]
  by (simp only: threshold_example) simp

section \<open>Sections\<close>

lemma section_loop_levels:
  assumes "\<forall>s \<in> set secs. 1 \<le> level s \<and> level s \<le> 3"
    and "\<forall>c. cur = Some c \<longrightarrow> 1 \<le> level c \<and> level c \<le> 3"
    and "section_loop es (secs, cur) = (secs', cur')"
  shows "(\<forall>s \<in> set secs'. 1 \<le> level s \<and> level s \<le> 3) \<and>
         (\<forall>c. cur' = Some c \<longrightarrow> 1 \<le> level c \<and> level c \<le> 3)"
  using assms
proof (induction es arbitrary: secs cur)
  case Nil
  then show ?case by simp
next
  case (Cons e es)
  show ?case
  proof (cases "el_in_script e \<or> el_text e = [] \<or> length (el_text e) < 5")
    case True
    then have "section_loop es (secs, cur) = (secs', cur')"
      using Cons.prems(3) by (auto split: if_splits)
    then show ?thesis using Cons.IH Cons.prems(1,2) by blast
  next
    case skip: False
    show ?thesis
    proof (cases "el_name e \<in> set [''h1'', ''h2'', ''h3'']")
      case True
      then have lv: "1 \<le> name_digit (el_name e) \<and> name_digit (el_name e) \<le> 3"
        by (auto simp: name_digit_def)
      let ?secs = "case cur of None \<Rightarrow> secs | Some c \<Rightarrow> secs @ [c]"
      let ?cur = "Some \<lparr>heading = el_text e, level = name_digit (el_name e), content = []\<rparr>"
      have "section_loop es (?secs, ?cur) = (secs', cur')"
        using Cons.prems(3) skip True by simp
      moreover have "\<forall>s \<in> set ?secs. 1 \<le> level s \<and> level s \<le> 3"
        using Cons.prems(1,2) by (auto split: option.splits)
      moreover have "\<forall>c. ?cur = Some c \<longrightarrow> 1 \<le> level c \<and> level c \<le> 3"
        using lv by simp
      ultimately show ?thesis using Cons.IH by blast
    next
      case other: False
      show ?thesis
      proof (cases cur)
        case None
        then have "section_loop es (secs, cur) = (secs', cur')"
          using Cons.prems(3) skip other by simp
        then show ?thesis using Cons.IH Cons.prems(1,2) by blast
      next
        case (Some c)
        let ?cur = "Some (c\<lparr>content := content c @ [el_text e]\<rparr>)"
        have "section_loop es (secs, ?cur) = (secs', cur')"
          using Cons.prems(3) skip other Some by simp
        moreover have "\<forall>d. ?cur = Some d \<longrightarrow> 1 \<le> level d \<and> level d \<le> 3"
          using Cons.prems(2) Some by simp
        ultimately show ?thesis using Cons.IH Cons.prems(1) by blast
      qed
    qed
  qed
qed

lemma extract_sections_levels:
  assumes "s \<in> set (extract_sections els)"
  shows "1 \<le> level s \<and> level s \<le> 3"
proof -
  let ?els = "find_all [''h1'', ''h2'', ''h3'', ''h4'', ''h5'', ''h6'', ''p'', ''div'', ''section''] els"
  obtain secs' cur' where r: "section_loop ?els ([], None) = (secs', cur')"
    by (cases "section_loop ?els ([], None)")
  have inv: "(\<forall>s \<in> set secs'. 1 \<le> level s \<and> level s \<le> 3) \<and>
             (\<forall>c. cur' = Some c \<longrightarrow> 1 \<le> level c \<and> level c \<le> 3)"
    by (rule section_loop_levels [OF _ _ r]) simp_all
  show ?thesis
    using assms inv unfolding extract_sections_def r
    by (cases cur') auto
qed

lemma section_loop_orphans:
  assumes "\<forall>e \<in> set pre. \<not> opens_section e"
  shows "section_loop (pre @ rest) (secs, None) = section_loop rest (secs, None)"
  using assms
  by (induction pre) (auto simp: opens_section_def)

lemma find_all_no_opening:
  assumes "\<forall>e \<in> set pre. \<not> opens_section e"
  shows "\<forall>e \<in> set (find_all names pre). \<not> opens_section e"
  using assms by (simp add: find_all_def)

lemma extract_sections_orphans:
  assumes "\<forall>e \<in> set pre. \<not> opens_section e"
  shows "extract_sections (pre @ rest) = extract_sections rest"
proof -
  let ?names = "[''h1'', ''h2'', ''h3'', ''h4'', ''h5'', ''h6'', ''p'', ''div'', ''section'']"
  have "find_all ?names (pre @ rest) = find_all ?names pre @ find_all ?names rest"
    unfolding find_all_def by (rule filter_append)
  moreover have "section_loop (find_all ?names pre @ find_all ?names rest) ([], None) =
      section_loop (find_all ?names rest) ([], None)"
    by (rule section_loop_orphans [OF find_all_no_opening [OF assms]])
  ultimately show ?thesis
    by (simp only: extract_sections_def)
qed

text \<open>
  Claim C4. Every section the extractor produces has a level between 1 and 3, and what
  comes before the first element that opens a section (a heading of level 1 to 3 that the
  loop does not skip) leaves no trace in the result: the sections of a page are those of
  the page without that beginning, so no content list holds text from it.
\<close>

theorem sections_levels_and_no_orphans:
  "(s \<in> set (extract_sections els) \<longrightarrow> 1 \<le> level s \<and> level s \<le> 3) \<and>
   ((\<forall>e \<in> set pre. \<not> opens_section e) \<longrightarrow>
      extract_sections (pre @ rest) = extract_sections rest)"
  using extract_sections_levels extract_sections_orphans by blast

theorem sections_levels_and_no_orphans_witness:
  "\<lparr>heading = ustr ''Overview'', level = 2, content = [ustr ''Body text here'']\<rparr>
     \<in> set (extract_sections
         [\<lparr>el_name = ''p'', el_text = ustr ''Intro text'', el_in_script = False\<rparr>,
          \<lparr>el_name = ''h2'', el_text = ustr ''Overview'', el_in_script = False\<rparr>,
          \<lparr>el_name = ''p'', el_text = ustr ''Body text here'', el_in_script = False\<rparr>]) \<and>
   (1::int) \<le> 2 \<and> (2::int) \<le> 3 \<and>
   \<not> opens_section \<lparr>el_name = ''p'', el_text = ustr ''Intro text'', el_in_script = False\<rparr> \<and>
   extract_sections
     ([\<lparr>el_name = ''p'', el_text = ustr ''Intro text'', el_in_script = False\<rparr>] @
      [\<lparr>el_name = ''h2'', el_text = ustr ''Overview'', el_in_script = False\<rparr>,
       \<lparr>el_name = ''p'', el_text = ustr ''Body text here'', el_in_script = False\<rparr>]) =
   extract_sections
     [\<lparr>el_name = ''h2'', el_text = ustr ''Overview'', el_in_script = False\<rparr>,
      \<lparr>el_name = ''p'', el_text = ustr ''Body text here'', el_in_script = False\<rparr>]"
  using sections_levels_and_no_orphans
    [of "\<lparr>heading = ustr ''Overview'', level = 2, content = [ustr ''Body text here'']\<rparr>"
        "[\<lparr>el_name = ''p'', el_text = ustr ''Intro text'', el_in_script = False\<rparr>,
          \<lparr>el_name = ''h2'', el_text = ustr ''Overview'', el_in_script = False\<rparr>,
          \<lparr>el_name = ''p'', el_text = ustr ''Body text here'', el_in_script = False\<rparr>]"
        "[\<lparr>el_name = ''p'', el_text = ustr ''Intro text'', el_in_script = False\<rparr>]"
        "[\<lparr>el_name = ''h2'', el_text = ustr ''Overview'', el_in_script = False\<rparr>,
          \<lparr>el_name = ''p'', el_text = ustr ''Body text here'', el_in_script = False\<rparr>]"]
  by (simp add: extract_sections_def find_all_def opens_section_def name_digit_def ustr_def)

section \<open>Tables\<close>

lemma tables_from_invariant:
  assumes "t \<in> set (tables_from i doms)"
  shows "(headers t \<noteq> [] \<longrightarrow> column_count t = length (headers t)) \<and>
         (headers t = [] \<longrightarrow> (\<exists>r rs. rows t = r # rs \<and> column_count t = length r)) \<and>
         headers t \<notin> set (rows t)"
  using assms
proof (induction doms arbitrary: i)
  case Nil
  then show ?case by simp
next
  case (Cons d doms)
  show ?case
  proof (cases "t \<in> set (tables_from (i + 1) doms)")
    case True
    then show ?thesis using Cons.IH by blast
  next
    case False
    then have t: "table_rows d \<noteq> [] \<or> table_headers d \<noteq> []"
      and eq: "t = \<lparr>table_index = i + 1, headers = table_headers d, rows = table_rows d,
                    row_count = length (table_rows d),
                    column_count =
                      (if table_headers d \<noteq> [] then length (table_headers d)
                       else (case table_rows d of [] \<Rightarrow> 0 | r # _ \<Rightarrow> length r))\<rparr>"
      using Cons.prems by (auto split: if_splits)
    have "table_headers d \<notin> set (table_rows d)"
      by (simp add: table_rows_def)
    then show ?thesis
      using t eq by (cases "table_rows d") auto
  qed
qed

text \<open>
  Claim C5. For every table the extractor produces, \<open>column_count\<close> is the number of
  headers when there are headers; otherwise the table has a first row and \<open>column_count\<close>
  is its width; and no row equals the list of headers.
\<close>

theorem table_column_count_and_rows:
  "t \<in> set (extract_all_tables doms) \<Longrightarrow>
     (headers t \<noteq> [] \<longrightarrow> column_count t = length (headers t)) \<and>
     (headers t = [] \<longrightarrow> (\<exists>r rs. rows t = r # rs \<and> column_count t = length r)) \<and>
     headers t \<notin> set (rows t)"
  unfolding extract_all_tables_def by (rule tables_from_invariant)

theorem table_column_count_and_rows_witness:
  "\<lparr>table_index = 1, headers = [ustr ''Drug'', ustr ''Dose''],
     rows = [[ustr ''Entecavir'', ustr ''0.5 mg'']], row_count = 1, column_count = 2\<rparr>
     \<in> set (extract_all_tables
         [\<lparr>thead = Some [[ustr ''Drug'', ustr ''Dose'']], tbody = None,
           all_tr = [[ustr ''Drug'', ustr ''Dose''], [ustr ''Entecavir'', ustr ''0.5 mg'']]\<rparr>]) \<and>
   (2::nat) = length [ustr ''Drug'', ustr ''Dose''] \<and>
   [ustr ''Drug'', ustr ''Dose''] \<notin> set [[ustr ''Entecavir'', ustr ''0.5 mg'']]"
  using table_column_count_and_rows
    [of "\<lparr>table_index = 1, headers = [ustr ''Drug'', ustr ''Dose''],
           rows = [[ustr ''Entecavir'', ustr ''0.5 mg'']], row_count = 1, column_count = 2\<rparr>"
        "[\<lparr>thead = Some [[ustr ''Drug'', ustr ''Dose'']], tbody = None,
           all_tr = [[ustr ''Drug'', ustr ''Dose''], [ustr ''Entecavir'', ustr ''0.5 mg'']]\<rparr>]"]
  by (simp add: extract_all_tables_def table_rows_def table_headers_def ustr_def)

section \<open>Paragraphs of a PDF text\<close>

lemma para_loop_group_loop:
  "para_loop ss st = group_loop (filter (\<lambda>s. 20 < length s) (map strip ss)) st"
proof (induction ss arbitrary: st)
  case Nil
  then show ?case by simp
next
  case (Cons s ss)
  obtain ps cur where st: "st = (ps, cur)" by (cases st)
  show ?case unfolding st by (simp add: Cons.IH)
qed

lemma group_loop_seven:
  "group_loop [q1, q2, q3, q4, q5, q6, q7] ([], []) =
     ([join (ustr '' '') [q1, q2, q3], join (ustr '' '') [q4, q5, q6]], [q7])"
  by simp

lemma seven_sentences_text:
  "pdf_sentences (ustr ''Sentence number 1 ok. Sentence number 2 ok. Sentence number 3 ok. Sentence number 4 ok. Sentence number 5 ok. Sentence number 6 ok. Sentence number 7 ok.'') =
     [ustr ''Sentence number 1 ok.'', ustr ''Sentence number 2 ok.'', ustr ''Sentence number 3 ok.'', ustr ''Sentence number 4 ok.'', ustr ''Sentence number 5 ok.'', ustr ''Sentence number 6 ok.'', ustr ''Sentence number 7 ok.'']"
  by (simp add: pdf_sentences_def collapse_ws_def sentence_break_def re_eval)

lemma seven_sentences_qualify:
  "qualifying_sentences (ustr ''Sentence number 1 ok. Sentence number 2 ok. Sentence number 3 ok. Sentence number 4 ok. Sentence number 5 ok. Sentence number 6 ok. Sentence number 7 ok.'') =
     [ustr ''Sentence number 1 ok.'', ustr ''Sentence number 2 ok.'', ustr ''Sentence number 3 ok.'', ustr ''Sentence number 4 ok.'', ustr ''Sentence number 5 ok.'', ustr ''Sentence number 6 ok.'', ustr ''Sentence number 7 ok.'']"
  unfolding qualifying_sentences_def seven_sentences_text
  by (simp add: strip_def rstrip_chars_def lstrip_chars_def isspace_def ustr_def)

text \<open>
  Claim C6, as amended. A PDF text that splits into exactly seven qualifying sentences
  gives three paragraphs: the first three sentences joined by a space, the next three
  joined by a space, and the seventh alone, so the groups have the sizes 3, 3 and 1.
\<close>

theorem seven_sentences_three_paragraphs:
  assumes "qualifying_sentences full_text = [q1, q2, q3, q4, q5, q6, q7]"
  shows "parse_pdf_into_paragraphs full_text =
           [join (ustr '' '') [q1, q2, q3], join (ustr '' '') [q4, q5, q6],
            join (ustr '' '') [q7]] \<and>
         length (parse_pdf_into_paragraphs full_text) = 3"
proof -
  have "para_loop (pdf_sentences full_text) ([], []) =
          ([join (ustr '' '') [q1, q2, q3], join (ustr '' '') [q4, q5, q6]], [q7])"
    using assms unfolding qualifying_sentences_def para_loop_group_loop
    by (simp only: group_loop_seven)
  then show ?thesis
    by (simp add: parse_pdf_into_paragraphs_def)
qed

theorem seven_sentences_three_paragraphs_witness:
  "qualifying_sentences (ustr ''Sentence number 1 ok. Sentence number 2 ok. Sentence number 3 ok. Sentence number 4 ok. Sentence number 5 ok. Sentence number 6 ok. Sentence number 7 ok.'') =
     [ustr ''Sentence number 1 ok.'', ustr ''Sentence number 2 ok.'', ustr ''Sentence number 3 ok.'', ustr ''Sentence number 4 ok.'', ustr ''Sentence number 5 ok.'', ustr ''Sentence number 6 ok.'', ustr ''Sentence number 7 ok.''] \<and>
   parse_pdf_into_paragraphs (ustr ''Sentence number 1 ok. Sentence number 2 ok. Sentence number 3 ok. Sentence number 4 ok. Sentence number 5 ok. Sentence number 6 ok. Sentence number 7 ok.'') =
     [join (ustr '' '') [ustr ''Sentence number 1 ok.'', ustr ''Sentence number 2 ok.'', ustr ''Sentence number 3 ok.''],
      join (ustr '' '') [ustr ''Sentence number 4 ok.'', ustr ''Sentence number 5 ok.'', ustr ''Sentence number 6 ok.''],
      join (ustr '' '') [ustr ''Sentence number 7 ok.'']] \<and>
   length (parse_pdf_into_paragraphs (ustr ''Sentence number 1 ok. Sentence number 2 ok. Sentence number 3 ok. Sentence number 4 ok. Sentence number 5 ok. Sentence number 6 ok. Sentence number 7 ok.'')) = 3"
  using seven_sentences_three_paragraphs [OF seven_sentences_qualify] seven_sentences_qualify
  by simp

text \<open>
  The claim as stated asks for two paragraphs. On a text of seven qualifying sentences
  the function does not return two.
\<close>

theorem seven_sentences_not_two_paragraphs:
  "length (qualifying_sentences (ustr ''Sentence number 1 ok. Sentence number 2 ok. Sentence number 3 ok. Sentence number 4 ok. Sentence number 5 ok. Sentence number 6 ok. Sentence number 7 ok.'')) = 7 \<and>
   length (parse_pdf_into_paragraphs (ustr ''Sentence number 1 ok. Sentence number 2 ok. Sentence number 3 ok. Sentence number 4 ok. Sentence number 5 ok. Sentence number 6 ok. Sentence number 7 ok.'')) \<noteq> 2"
proof -
  have "para_loop (pdf_sentences (ustr ''Sentence number 1 ok. Sentence number 2 ok. Sentence number 3 ok. Sentence number 4 ok. Sentence number 5 ok. Sentence number 6 ok. Sentence number 7 ok.'')) ([], []) =
          ([join (ustr '' '') [ustr ''Sentence number 1 ok.'', ustr ''Sentence number 2 ok.'', ustr ''Sentence number 3 ok.''],
            join (ustr '' '') [ustr ''Sentence number 4 ok.'', ustr ''Sentence number 5 ok.'', ustr ''Sentence number 6 ok.'']], [ustr ''Sentence number 7 ok.''])"
    using seven_sentences_qualify unfolding qualifying_sentences_def para_loop_group_loop
    by (simp only: group_loop_seven)
  then have "length (parse_pdf_into_paragraphs (ustr ''Sentence number 1 ok. Sentence number 2 ok. Sentence number 3 ok. Sentence number 4 ok. Sentence number 5 ok. Sentence number 6 ok. Sentence number 7 ok.'')) = 3"
    by (simp add: parse_pdf_into_paragraphs_def)
  then show ?thesis
    by (simp add: seven_sentences_qualify)
qed

section \<open>Text of a PDF file\<close>

lemma collapse_ws_empty: "collapse_ws [] = []"
  by (simp add: collapse_ws_def re_eval)

lemma text_pages_unusable:
  "(\<forall>p \<in> set pages. p = PageRaises \<or> p = PageText []) \<Longrightarrow> text_pages pages = []"
  by (induction pages rule: text_pages.induct) auto

lemma extract_unsupported:
  "extract_text_from_pdf False rd ''full_text'' = Some (VStr []) \<and>
   extract_text_from_pdf False rd ''error'' = Some (VStr (ustr ''PyPDF2 not installed''))"
  by (simp add: extract_text_from_pdf_def)

lemma extract_read_raises:
  "extract_text_from_pdf True (ReadRaises e) ''full_text'' = Some (VStr []) \<and>
   extract_text_from_pdf True (ReadRaises e) ''error'' = Some (VStr e)"
  by (simp add: extract_text_from_pdf_def)

lemma extract_no_usable_page:
  assumes "text_pages pages = []"
  shows "extract_text_from_pdf True (Opened pages) ''full_text'' = Some (VStr []) \<and>
         extract_text_from_pdf True (Opened pages) ''error'' = None"
  using assms by (simp add: extract_text_from_pdf_def Let_def collapse_ws_empty)

lemma process_pdf_empty_text:
  assumes "extract_text_from_pdf PDF_SUPPORT rd ''full_text'' = Some (VStr [])"
  shows "process_pdf url (Some pdf_path) PDF_SUPPORT rd = Inr None"
  using assms by (simp add: process_pdf_def getitem_def Let_def)

text \<open>
  Claim C7, as amended. When no text can be extracted, \<open>extract_text_from_pdf\<close> returns a
  record whose \<open>full_text\<close> is the empty string, and \<open>process_pdf\<close> returns \<open>None\<close> on
  that empty text. The record has the key \<open>error\<close> when the PDF library is unavailable
  or when opening or reading the file raises. When the file opens and every page raises
  or yields the empty text, the record has no key \<open>error\<close>.
\<close>

theorem pdf_without_text:
  "((\<not> PDF_SUPPORT \<or> rd = ReadRaises e) \<longrightarrow>
      extract_text_from_pdf PDF_SUPPORT rd ''full_text'' = Some (VStr []) \<and>
      extract_text_from_pdf PDF_SUPPORT rd ''error'' \<noteq> None \<and>
      process_pdf url (Some pdf_path) PDF_SUPPORT rd = Inr None) \<and>
   ((PDF_SUPPORT \<and> rd = Opened pages \<and>
     (\<forall>p \<in> set pages. p = PageRaises \<or> p = PageText [])) \<longrightarrow>
      extract_text_from_pdf PDF_SUPPORT rd ''full_text'' = Some (VStr []) \<and>
      extract_text_from_pdf PDF_SUPPORT rd ''error'' = None \<and>
      process_pdf url (Some pdf_path) PDF_SUPPORT rd = Inr None)"
proof (intro conjI impI)
  assume a: "\<not> PDF_SUPPORT \<or> rd = ReadRaises e"
  show ft: "extract_text_from_pdf PDF_SUPPORT rd ''full_text'' = Some (VStr [])"
    using a extract_unsupported [of rd] extract_read_raises [of e] by (cases PDF_SUPPORT) auto
  show "extract_text_from_pdf PDF_SUPPORT rd ''error'' \<noteq> None"
    using a extract_unsupported [of rd] extract_read_raises [of e] by (cases PDF_SUPPORT) auto
  show "process_pdf url (Some pdf_path) PDF_SUPPORT rd = Inr None"
    by (rule process_pdf_empty_text [OF ft])
next
  assume a: "PDF_SUPPORT \<and> rd = Opened pages \<and>
     (\<forall>p \<in> set pages. p = PageRaises \<or> p = PageText [])"
  then have tp: "text_pages pages = []"
    by (simp add: text_pages_unusable)
  show ft: "extract_text_from_pdf PDF_SUPPORT rd ''full_text'' = Some (VStr [])"
    using a extract_no_usable_page [OF tp] by simp
  show "extract_text_from_pdf PDF_SUPPORT rd ''error'' = None"
    using a extract_no_usable_page [OF tp] by simp
  show "process_pdf url (Some pdf_path) PDF_SUPPORT rd = Inr None"
    by (rule process_pdf_empty_text [OF ft])
qed

theorem pdf_without_text_witness:
  "extract_text_from_pdf False (Opened []) ''full_text'' = Some (VStr []) \<and>
   extract_text_from_pdf False (Opened []) ''error'' \<noteq> None \<and>
   process_pdf (ustr ''https://www.aasld.org/a.pdf'') (Some (ustr ''data/pdfs/a.pdf'')) False
     (Opened []) = Inr None \<and>
   extract_text_from_pdf True (Opened [PageRaises, PageText []]) ''full_text'' = Some (VStr []) \<and>
   extract_text_from_pdf True (Opened [PageRaises, PageText []]) ''error'' = None \<and>
   process_pdf (ustr ''https://www.aasld.org/a.pdf'') (Some (ustr ''data/pdfs/a.pdf'')) True
     (Opened [PageRaises, PageText []]) = Inr None"
  using
    pdf_without_text [of False "Opened []" "[]" "ustr ''https://www.aasld.org/a.pdf''"
      "ustr ''data/pdfs/a.pdf''" "[]"]
    pdf_without_text [of True "Opened [PageRaises, PageText []]" "[]"
      "ustr ''https://www.aasld.org/a.pdf''" "ustr ''data/pdfs/a.pdf''"
      "[PageRaises, PageText []]"]
  by simp

text \<open>
  The claim as stated promises the key \<open>error\<close> also when every page yields no usable
  text. A file that opens and whose pages give nothing has no such key in its record.
\<close>

theorem no_usable_page_has_no_error_key:
  "extract_text_from_pdf True (Opened [PageRaises, PageText []]) ''full_text'' = Some (VStr []) \<and>
   extract_text_from_pdf True (Opened [PageRaises, PageText []]) ''error'' = None"
  by (rule extract_no_usable_page) simp

section \<open>Links\<close>

text \<open>
  Claim C8, as amended. \<open>is_valid_content_link\<close> returns \<open>True\<close> exactly when the URL is
  not empty, differs from the page URL, none of the reject patterns occurs in its
  lower-cased form, it parses, and one of these holds: (a) its host contains one of the
  journal and resolver host names; (b) the URL itself ends in \<open>.pdf\<close> or contains
  \<open>/sites/default/files/\<close>; (c) its host contains \<open>aasld.org\<close>, the URL contains
  \<open>/practice-guidelines/\<close>, the page URL parses, and the path of the URL, without its
  trailing slashes, is different from the path of the page, without its trailing
  slashes, and begins with it.
\<close>

theorem valid_content_link_iff:
  "is_valid_content_link lower urlparse url base_url = Inr True \<longleftrightarrow>
     url \<noteq> [] \<and> url \<noteq> base_url \<and>
     \<not> list_ex (\<lambda>pattern. contains pattern (lower url)) REJECT_PATTERNS \<and>
     (\<exists>parsed. urlparse url = Inr parsed \<and>
        (list_ex (\<lambda>domain. contains domain (netloc parsed))
           (map ustr [''journals.lww.com'', ''doi.org'', ''pubmed'']) \<or>
         suffix (ustr ''.pdf'') url \<or>
         contains (ustr ''/sites/default/files/'') url \<or>
         (contains (ustr ''aasld.org'') (netloc parsed) \<and>
          contains (ustr ''/practice-guidelines/'') url \<and>
          (\<exists>base_parsed. urlparse base_url = Inr base_parsed \<and>
             rstrip_chars (\<lambda>c. c = 47) (path parsed) \<noteq>
               rstrip_chars (\<lambda>c. c = 47) (path base_parsed) \<and>
             prefix (rstrip_chars (\<lambda>c. c = 47) (path base_parsed))
               (rstrip_chars (\<lambda>c. c = 47) (path parsed))))))"
proof (cases "urlparse url")
  case (Inl e)
  then show ?thesis
    by (simp add: is_valid_content_link_def)
next
  case parsed: (Inr parsed)
  show ?thesis
  proof (cases "urlparse base_url")
    case (Inl e)
    then show ?thesis
      using parsed by (simp add: is_valid_content_link_def)
  next
    case (Inr base_parsed)
    then show ?thesis
      using parsed by (auto simp add: is_valid_content_link_def Let_def)
  qed
qed

lemmas url_eval =
  is_valid_content_link_def link_condition_as_specified_def strict_descendant_def
  urlparse_plain_def ascii_lower_def REJECT_PATTERNS_def rstrip_chars_def ustr_def Let_def
  suffix_to_prefix

text \<open>
  The claim as stated leaves out the test for \<open>/practice-guidelines/\<close>. A link on the
  site below a page outside that section meets the condition of the claim, and the
  function returns \<open>False\<close> for it.
\<close>

theorem descendant_outside_guidelines_rejected:
  "is_valid_content_link ascii_lower urlparse_plain
     (ustr ''https://www.aasld.org/guides/hbv'') (ustr ''https://www.aasld.org/guides'')
     = Inr False \<and>
   link_condition_as_specified ascii_lower urlparse_plain
     (ustr ''https://www.aasld.org/guides/hbv'') (ustr ''https://www.aasld.org/guides'')"
  by (simp add: url_eval)

section \<open>Recommendations\<close>

lemma rec_matches:
  "finditer rec_pattern
     (ustr ''Recommendation 1: Use drug X (Strong recommendation, moderate certainty). Recommendation 2: ...'') =
   [\<lparr>m_text = ustr ''Recommendation 1: Use drug X (Strong recommendation, moderate certainty). '',
      m_groups = [(2, ustr ''Use drug X (Strong recommendation, moderate certainty). ''),
                  (1, ustr ''1'')]\<rparr>,
    \<lparr>m_text = ustr ''Recommendation 2: ...'',
      m_groups = [(2, ustr ''...''), (1, ustr ''2'')]\<rparr>]"
  by (simp add: rec_pattern_def re_eval)

lemma rec1_strip:
  "strip (ustr ''Use drug X (Strong recommendation, moderate certainty). '') =
   ustr ''Use drug X (Strong recommendation, moderate certainty).''"
  by (simp add: strip_def rstrip_chars_def lstrip_chars_def isspace_def ustr_def)

lemma rec2_strip: "strip (ustr ''...'') = ustr ''...''"
  by (simp add: strip_def rstrip_chars_def lstrip_chars_def isspace_def ustr_def)

lemma rec1_grade:
  "search grade_pattern (ustr ''Use drug X (Strong recommendation, moderate certainty).'') =
   Some \<lparr>m_text = ustr ''(Strong recommendation, moderate certainty)'',
         m_groups = [(1, ustr ''Strong'')]\<rparr>"
  by (simp add: grade_pattern_def re_eval)

lemma rec1_certainty:
  "search certainty_pattern (ustr ''Use drug X (Strong recommendation, moderate certainty).'') =
   None"
  by (simp add: certainty_pattern_def re_eval)

lemma rec2_grade: "search grade_pattern (ustr ''...'') = None"
  by (simp add: grade_pattern_def re_eval)

lemma rec2_certainty: "search certainty_pattern (ustr ''...'') = None"
  by (simp add: certainty_pattern_def re_eval)

lemmas normalize_eval =
  normalize_text_def collapse_ws_def collapse_newlines_def collapse_blanks_def
  space_camel_case_def space_after_sentence_def collapse_dots_def collapse_dashes_def
  cut_copyright_def strip_def rstrip_chars_def lstrip_chars_def template_group_def

lemma rec1_nav:
  "strip_navigation (ustr ''Use drug X (Strong recommendation, moderate certainty).'') =
   ustr ''Use drug X (Strong recommendation, moderate certainty).''"
  by (simp add: strip_navigation_def NAVIGATION_PATTERNS_def re_eval)

lemma rec1_norm:
  "normalize_text (ustr ''Use drug X (Strong recommendation, moderate certainty).'') =
   ustr ''Use drug X (Strong recommendation, moderate certainty).''"
  by (simp add: normalize_eval re_eval)

lemma rec2_nav: "strip_navigation (ustr ''...'') = ustr ''...''"
  by (simp add: strip_navigation_def NAVIGATION_PATTERNS_def re_eval)

lemma rec2_norm: "normalize_text (ustr ''...'') = ustr ''...''"
  by (simp add: normalize_eval re_eval)

lemma ustr_nonempty: "ustr (c # cs) \<noteq> []"
  by (simp add: ustr_def)

lemma rec_example:
  "extract_recommendations
     (ustr ''Recommendation 1: Use drug X (Strong recommendation, moderate certainty). Recommendation 2: ...'') =
   Inr [\<lparr>number = Some (ustr ''1''),
          text_of = ustr ''Use drug X (Strong recommendation, moderate certainty).'',
          grade = Some (ustr ''Strong''), certainty = None,
          raw_text = ustr ''Recommendation 1: Use drug X (Strong recommendation, moderate certainty). ''\<rparr>,
        \<lparr>number = Some (ustr ''2''), text_of = ustr ''...'', grade = None, certainty = None,
          raw_text = ustr ''Recommendation 2: ...''\<rparr>]"
  unfolding extract_recommendations_def rec_matches
  by (simp add: grp_def Let_def rec1_strip rec2_strip rec1_grade rec1_certainty rec2_grade
      rec2_certainty clean_text_def rec1_nav rec1_norm rec2_nav rec2_norm ustr_nonempty)

text \<open>
  Claim C2, as amended. On the input of the claim \<open>extract_recommendations\<close> returns
  exactly two recommendations, numbered 1 and 2. The first has the grade \<open>Strong\<close>. Its
  certainty is \<open>None\<close>: the certainty pattern asks for a parenthesis that opens directly
  before the certainty word, and in the input the parenthesis opens before \<open>Strong\<close>.
\<close>

theorem recommendation_example:
  "extract_recommendations
     (ustr ''Recommendation 1: Use drug X (Strong recommendation, moderate certainty). Recommendation 2: ...'') =
   Inr [\<lparr>number = Some (ustr ''1''),
          text_of = ustr ''Use drug X (Strong recommendation, moderate certainty).'',
          grade = Some (ustr ''Strong''), certainty = None,
          raw_text = ustr ''Recommendation 1: Use drug X (Strong recommendation, moderate certainty). ''\<rparr>,
        \<lparr>number = Some (ustr ''2''), text_of = ustr ''...'', grade = None, certainty = None,
          raw_text = ustr ''Recommendation 2: ...''\<rparr>]"
  by (rule rec_example)

text \<open>
  The claim as stated asks for a certainty that contains \<open>moderate certainty\<close>. Neither
  recommendation of the result has a certainty.
\<close>

theorem recommendation_example_no_certainty:
  "map certainty (projr (extract_recommendations
     (ustr ''Recommendation 1: Use drug X (Strong recommendation, moderate certainty). Recommendation 2: ...''))) = [None, None]"
  by (simp add: rec_example)

section \<open>The text cleaner\<close>

subsection \<open>Substitution, one match at a time\<close>

lemma pick_first: "pick False st cands = (case cands of [] \<Rightarrow> None | x # _ \<Rightarrow> Some x)"
  by (cases cands) (simp_all add: pick_def)

lemma sub_from_no_match_Cons:
  assumes "ms r (p, c # cs, []) = []"
  shows "sub_from r f p (c # cs) = c # sub_from r f (Some c) cs"
proof -
  obtain pieces rest where sc: "scan r False (Some c) cs = (pieces, rest)"
    by (cases "scan r False (Some c) cs")
  show ?thesis
    using assms sc
    by (cases pieces) (auto simp: sub_from_def scan.simps [of r False p "c # cs"] pick_first)
qed

lemma sub_from_no_match_Nil:
  assumes "ms r (p, [], []) = []"
  shows "sub_from r f p [] = []"
  using assms by (simp add: sub_from_def scan.simps [of r False p "[]"] pick_first)

lemma sub_from_match:
  assumes "ms r (p, s, []) = (p', s', g) # others" and "length s' < length s"
  shows "sub_from r f p s =
           f \<lparr>m_text = take (length s - length s') s, m_groups = g\<rparr> @ sub_from r f p' s'"
proof -
  obtain pieces rest where sc: "scan r False p' s' = (pieces, rest)"
    by (cases "scan r False p' s'")
  show ?thesis
    using assms sc
    by (simp add: sub_from_def scan.simps [of r False p s] pick_first)
qed

lemma ms_star_single:
  assumes "\<And>st. ms r st = step1 P st"
  shows "\<exists>p' others. ms (Star r) (p, s, g) = (p', dropWhile P s, g) # others"
proof (induction s arbitrary: p)
  case Nil
  then show ?case by (simp add: assms step1_def)
next
  case (Cons x xs)
  show ?case
  proof (cases "P x")
    case True
    obtain p' others where "ms (Star r) (Some x, xs, g) = (p', dropWhile P xs, g) # others"
      using Cons.IH by blast
    then show ?thesis
      using True by (simp add: assms step1_def remaining_def)
  next
    case False
    then show ?thesis by (simp add: assms step1_def)
  qed
qed

lemma ms_plus_single:
  assumes "\<And>st. ms r st = step1 P st"
  shows "ms (plus r) (p, [], g) = []"
    and "\<not> P x \<Longrightarrow> ms (plus r) (p, x # xs, g) = []"
    and "P x \<Longrightarrow> \<exists>p' others. ms (plus r) (p, x # xs, g) = (p', dropWhile P xs, g) # others"
proof -
  show "ms (plus r) (p, [], g) = []"
    by (simp add: plus_def assms step1_def)
  show "\<not> P x \<Longrightarrow> ms (plus r) (p, x # xs, g) = []"
    by (simp add: plus_def assms step1_def)
  show "P x \<Longrightarrow> \<exists>p' others. ms (plus r) (p, x # xs, g) = (p', dropWhile P xs, g) # others"
    using ms_star_single [OF assms, of "Some x" xs g]
    by (simp add: plus_def assms [of "(p, x # xs, g)"] step1_def)
qed

lemma sub_plus_single:
  assumes r: "\<And>st. ms r st = step1 P st"
  shows "sub_from (plus r) (\<lambda>m. rep) p s = replace_runs P rep s"
proof (induction "length s" arbitrary: s p rule: less_induct)
  case less
  show ?case
  proof (cases s)
    case Nil
    then show ?thesis
      using sub_from_no_match_Nil [OF ms_plus_single(1) [OF r]] by simp
  next
    case (Cons c cs)
    show ?thesis
    proof (cases "P c")
      case True
      obtain p' others where
        m: "ms (plus r) (p, c # cs, []) = (p', dropWhile P cs, []) # others"
        using ms_plus_single(3) [OF r True] by blast
      have len: "length (dropWhile P cs) < length (c # cs)"
        using length_dropWhile_le [of P cs] by simp
      have "sub_from (plus r) (\<lambda>m. rep) p (c # cs) =
              rep @ sub_from (plus r) (\<lambda>m. rep) p' (dropWhile P cs)"
        by (rule sub_from_match [OF m len])
      also have "sub_from (plus r) (\<lambda>m. rep) p' (dropWhile P cs) =
              replace_runs P rep (dropWhile P cs)"
        using less len Cons by simp
      finally show ?thesis
        using True Cons by simp
    next
      case False
      have "sub_from (plus r) (\<lambda>m. rep) p (c # cs) =
              c # sub_from (plus r) (\<lambda>m. rep) (Some c) cs"
        by (rule sub_from_no_match_Cons [OF ms_plus_single(2) [OF r False]])
      then show ?thesis
        using False Cons less by simp
    qed
  qed
qed

lemma ms_Cls_step1: "ms (Cls cs) st = step1 (in_cls cs) st"
  by simp

lemma ms_Lit_step1: "ms (Lit c) st = step1 (\<lambda>x. x = c) st"
  by simp

lemma ms_DotAll_step1: "ms DotAll st = step1 (\<lambda>x. True) st"
  by simp

lemma collapse_ws_runs: "collapse_ws s = replace_runs isspace (ustr '' '') s"
proof -
  have "in_cls [WS] = isspace"
    by (rule ext) (simp add: in_cls_def)
  then show ?thesis
    using sub_plus_single [OF ms_Cls_step1, of "[WS]" "ustr '' ''" None s]
    by (simp add: collapse_ws_def sub_def)
qed

lemma collapse_blanks_runs:
  "collapse_blanks s = replace_runs (\<lambda>c. c = 32 \<or> c = 9) (ustr '' '') s"
proof -
  have "in_cls [Ch 32, Ch 9] = (\<lambda>c. c = 32 \<or> c = 9)"
    by (rule ext) (simp add: in_cls_def)
  then show ?thesis
    using sub_plus_single [OF ms_Cls_step1, of "[Ch 32, Ch 9]" "ustr '' ''" None s]
    by (simp add: collapse_blanks_def sub_def)
qed

lemma ms_two_groups:
  "ms (seqs [Grp 1 (Cls A), Grp 2 (Cls B)]) (p, s, []) =
     (case s of
        a # b # cs \<Rightarrow>
          if in_cls A a \<and> in_cls B b then [(Some b, cs, [(2, [b]), (1, [a])])] else []
      | _ \<Rightarrow> [])"
  by (auto simp: seqs_def step1_def remaining_def split: list.splits)

lemma sub_two_groups_Nil:
  "sub_from (seqs [Grp 1 (Cls A), Grp 2 (Cls B)]) f p [] = []"
proof -
  have m: "ms (seqs [Grp 1 (Cls A), Grp 2 (Cls B)]) (p, [], []) = []"
    by (simp only: ms_two_groups) simp
  show ?thesis
    using sub_from_no_match_Nil [OF m] by simp
qed

lemma sub_two_groups_single:
  "sub_from (seqs [Grp 1 (Cls A), Grp 2 (Cls B)]) f p [v] = [v]"
proof -
  have m: "ms (seqs [Grp 1 (Cls A), Grp 2 (Cls B)]) (p, [v], []) = []"
    by (simp only: ms_two_groups) simp
  show ?thesis
    using sub_from_no_match_Cons [OF m] sub_two_groups_Nil by simp
qed

lemma sub_two_groups:
  "sub_from (seqs [Grp 1 (Cls A), Grp 2 (Cls B)])
     (\<lambda>m. template_group m 1 @ ustr '' '' @ template_group m 2) p s =
   insert_space (in_cls A) (in_cls B) s"
proof (induction "in_cls A" "in_cls B" s arbitrary: p rule: insert_space.induct)
  case (1 a b cs)
  let ?r = "seqs [Grp 1 (Cls A), Grp 2 (Cls B)]"
  let ?f = "\<lambda>m. template_group m 1 @ ustr '' '' @ template_group m 2"
  show ?case
  proof (cases "in_cls A a \<and> in_cls B b")
    case True
    have m: "ms ?r (p, a # b # cs, []) = (Some b, cs, [(2, [b]), (1, [a])]) # []"
      using True by (simp only: ms_two_groups) simp
    have "sub_from ?r ?f p (a # b # cs) =
            ?f \<lparr>m_text = take (length (a # b # cs) - length cs) (a # b # cs),
                m_groups = [(2, [b]), (1, [a])]\<rparr> @ sub_from ?r ?f (Some b) cs"
      by (rule sub_from_match [OF m]) simp
    then show ?thesis
      using True 1(1) by (simp add: template_group_def grp_def ustr_def)
  next
    case False
    have m: "ms ?r (p, a # b # cs, []) = []"
      using False by (simp only: ms_two_groups) auto
    show ?thesis
      using sub_from_no_match_Cons [OF m] False 1(2) by auto
  qed
qed (simp_all only: sub_two_groups_Nil sub_two_groups_single insert_space.simps)

lemma space_camel_case_insert: "space_camel_case s = insert_space is_lower is_upper s"
proof -
  have "in_cls [Rng 97 122] = is_lower" "in_cls [Rng 65 90] = is_upper"
    by (rule ext, simp add: in_cls_def is_lower_def is_upper_def)+
  then show ?thesis
    using sub_two_groups [of "[Rng 97 122]" "[Rng 65 90]" None s]
    by (simp add: space_camel_case_def sub_def)
qed

lemma space_after_sentence_insert: "space_after_sentence s = insert_space is_stop is_upper s"
proof -
  have "in_cls [Ch 46, Ch 33, Ch 63] = is_stop" "in_cls [Rng 65 90] = is_upper"
    by (rule ext, simp add: in_cls_def is_stop_def is_upper_def)+
  then show ?thesis
    using sub_two_groups [of "[Ch 46, Ch 33, Ch 63]" "[Rng 65 90]" None s]
    by (simp add: space_after_sentence_def sub_def)
qed

declare ms.simps [simp del]

lemma ms_Lit_Seq:
  "ms (Seq (Lit c) r) (p, s, g) =
     (case s of [] \<Rightarrow> [] | x # xs \<Rightarrow> if x = c then ms r (Some x, xs, g) else [])"
  by (cases s) (simp_all add: ms.simps(2,8) step1_def)

lemma ms_Seq_Eps: "ms (Seq r Eps) st = ms r st"
proof -
  have "ms Eps = (\<lambda>st. [st])"
    by (rule ext) (simp add: ms.simps(1))
  then show ?thesis
    by (simp add: ms.simps(8))
qed

lemma three_plus_unfold:
  "seqs [Lit c, Lit c, Lit c, Star (Lit c)] =
     Seq (Lit c) (Seq (Lit c) (Seq (Lit c) (Seq (Star (Lit c)) Eps)))"
  by (simp add: seqs_def)

lemma ms_three_plus_none:
  assumes "\<not> prefix [c, c, c] s"
  shows "ms (seqs [Lit c, Lit c, Lit c, Star (Lit c)]) (p, s, g) = []"
proof (cases s)
  case Nil
  then show ?thesis by (simp add: three_plus_unfold ms_Lit_Seq)
next
  case s1: (Cons x xs)
  show ?thesis
  proof (cases xs)
    case Nil
    then show ?thesis using s1 by (simp add: three_plus_unfold ms_Lit_Seq)
  next
    case s2: (Cons y ys)
    show ?thesis
    proof (cases ys)
      case Nil
      then show ?thesis using s1 s2 by (simp add: three_plus_unfold ms_Lit_Seq)
    next
      case s3: (Cons z zs)
      have "\<not> (x = c \<and> y = c \<and> z = c)"
        using assms s1 s2 s3 by auto
      then show ?thesis
        using s1 s2 s3 by (auto simp: three_plus_unfold ms_Lit_Seq)
    qed
  qed
qed

lemma ms_three_plus_some:
  "\<exists>p' others. ms (seqs [Lit c, Lit c, Lit c, Star (Lit c)]) (p, c # c # c # rest, g) =
      (p', dropWhile (\<lambda>y. y = c) rest, g) # others"
proof -
  obtain p' others where
    "ms (Star (Lit c)) (Some c, rest, g) = (p', dropWhile (\<lambda>y. y = c) rest, g) # others"
    using ms_star_single [OF ms_Lit_step1, of c "Some c" rest g] by blast
  then show ?thesis
    by (simp add: three_plus_unfold ms_Lit_Seq ms_Seq_Eps)
qed

lemma sub_three_plus:
  "sub_from (seqs [Lit c, Lit c, Lit c, Star (Lit c)]) (\<lambda>m. [c, c, c]) p s = shorten_runs c s"
proof (induction "length s" arbitrary: s p rule: less_induct)
  case less
  let ?r = "seqs [Lit c, Lit c, Lit c, Star (Lit c)]"
  show ?case
  proof (cases s)
    case Nil
    have "ms ?r (p, [], []) = []"
      by (rule ms_three_plus_none) simp
    then show ?thesis
      using sub_from_no_match_Nil Nil by simp
  next
    case (Cons x xs)
    show ?thesis
    proof (cases "prefix [c, c, c] (x # xs)")
      case True
      then obtain rest where s: "s = c # c # c # rest"
        using Cons by (auto simp: prefix_def)
      obtain p' others where
        m: "ms ?r (p, c # c # c # rest, []) = (p', dropWhile (\<lambda>y. y = c) rest, []) # others"
        using ms_three_plus_some by blast
      have len: "length (dropWhile (\<lambda>y. y = c) rest) < length (c # c # c # rest)"
        using length_dropWhile_le [of "\<lambda>y. y = c" rest] by simp
      have "sub_from ?r (\<lambda>m. [c, c, c]) p (c # c # c # rest) =
              [c, c, c] @ sub_from ?r (\<lambda>m. [c, c, c]) p' (dropWhile (\<lambda>y. y = c) rest)"
        by (rule sub_from_match [OF m len])
      also have "sub_from ?r (\<lambda>m. [c, c, c]) p' (dropWhile (\<lambda>y. y = c) rest) =
              shorten_runs c (dropWhile (\<lambda>y. y = c) rest)"
        using less len s by simp
      finally show ?thesis
        unfolding s by simp
    next
      case False
      have "ms ?r (p, x # xs, []) = []"
        by (rule ms_three_plus_none [OF False])
      then have "sub_from ?r (\<lambda>m. [c, c, c]) p (x # xs) =
              x # sub_from ?r (\<lambda>m. [c, c, c]) (Some x) xs"
        by (rule sub_from_no_match_Cons)
      moreover have "sub_from ?r (\<lambda>m. [c, c, c]) (Some x) xs = shorten_runs c xs"
        using less Cons by simp
      moreover have "shorten_runs c (x # xs) = x # shorten_runs c xs"
        using False by (simp only: shorten_runs.simps if_False)
      ultimately show ?thesis
        using Cons by simp
    qed
  qed
qed

lemma collapse_dots_runs: "collapse_dots s = shorten_runs 46 s"
  using sub_three_plus [of 46 None s]
  by (simp add: collapse_dots_def sub_def ustr_def)

lemma collapse_dashes_runs: "collapse_dashes s = shorten_runs 45 s"
  using sub_three_plus [of 45 None s]
  by (simp add: collapse_dashes_def sub_def ustr_def)

lemma ms_literal:
  "ms (seqs (map Lit w)) (p, s, g) =
     (if prefix w s then [(if w = [] then p else Some (last w), drop (length w) s, g)] else [])"
proof (induction w arbitrary: p s)
  case Nil
  then show ?case by (simp add: seqs_def ms.simps(1))
next
  case step: (Cons x w)
  have sq: "seqs (map Lit (x # w)) = Seq (Lit x) (seqs (map Lit w))"
    by (simp add: seqs_def)
  show ?case
  proof (cases s)
    case Nil
    show ?thesis
      unfolding sq Nil by (simp add: ms_Lit_Seq)
  next
    case (Cons y ys)
    show ?thesis
      unfolding sq Cons by (simp add: ms_Lit_Seq step.IH)
  qed
qed

lemma lit_ustr: "lit w = seqs (map Lit (ustr w))"
  by (simp add: lit_def ustr_def comp_def)

lemma ms_cut_none:
  assumes "\<not> prefix (ustr w) s"
  shows "ms (seqs [lit w, Star DotAll, EolM]) (p, s, g) = []"
proof -
  have sq: "seqs [lit w, Star DotAll, EolM] = Seq (lit w) (seqs [Star DotAll, EolM])"
    by (simp add: seqs_def)
  have "ms (lit w) (p, s, g) = []"
    using assms by (simp only: lit_ustr ms_literal if_False)
  then show ?thesis
    by (simp only: sq ms.simps list.map concat.simps)
qed

lemma ms_cut_some:
  assumes "prefix (ustr w) s"
  shows "\<exists>p' others. ms (seqs [lit w, Star DotAll, EolM]) (p, s, g) = (p', [], g) # others"
proof -
  let ?p1 = "if ustr w = [] then p else Some (last (ustr w))"
  let ?s1 = "drop (length (ustr w)) s"
  have sq: "seqs [lit w, Star DotAll, EolM] = Seq (lit w) (Seq (Star DotAll) (Seq EolM Eps))"
    by (simp add: seqs_def)
  have a: "ms (lit w) (p, s, g) = [(?p1, ?s1, g)]"
    using assms by (simp only: lit_ustr ms_literal if_True)
  obtain p' others where
    st: "ms (Star DotAll) (?p1, ?s1, g) = (p', [], g) # others"
    using ms_star_single [OF ms_DotAll_step1, of ?p1 ?s1 g] by auto
  have e: "ms (Seq EolM Eps) (p', [], g) = [(p', [], g)]"
    by (simp add: ms_Seq_Eps ms.simps(17))
  have "ms (Seq (Star DotAll) (Seq EolM Eps)) (?p1, ?s1, g) =
          (p', [], g) # concat (map (ms (Seq EolM Eps)) others)"
    by (simp only: ms.simps(8) [of "Star DotAll"] st list.map concat.simps e append.simps)
  then have "ms (Seq (lit w) (Seq (Star DotAll) (Seq EolM Eps))) (p, s, g) =
          (p', [], g) # concat (map (ms (Seq EolM Eps)) others)"
    by (simp only: ms.simps(8) [of "lit w"] a list.map concat.simps append_Nil2)
  then show ?thesis
    unfolding sq by blast
qed

lemma sub_cut:
  assumes "w \<noteq> []"
  shows "sub_from (seqs [lit w, Star DotAll, EolM]) (\<lambda>m. []) p s = cut_at (ustr w) s"
proof (induction s arbitrary: p)
  case Nil
  have "\<not> prefix (ustr w) []"
    using assms by (simp add: ustr_def)
  then show ?case
    using sub_from_no_match_Nil [OF ms_cut_none] by simp
next
  case (Cons c cs)
  let ?r = "seqs [lit w, Star DotAll, EolM]"
  show ?case
  proof (cases "prefix (ustr w) (c # cs)")
    case True
    obtain p' others where m: "ms ?r (p, c # cs, []) = (p', [], []) # others"
      using ms_cut_some [OF True] by blast
    have "\<not> prefix (ustr w) []"
      using assms by (simp add: ustr_def)
    then have e: "sub_from ?r (\<lambda>m. []) p' [] = []"
      using sub_from_no_match_Nil [OF ms_cut_none] by simp
    have "sub_from ?r (\<lambda>m. []) p (c # cs) = [] @ sub_from ?r (\<lambda>m. []) p' []"
      by (rule sub_from_match [OF m]) simp
    then show ?thesis
      using True e by simp
  next
    case False
    then show ?thesis
      using sub_from_no_match_Cons [OF ms_cut_none [OF False]] Cons.IH by simp
  qed
qed

lemma cut_copyright_cut: "cut_copyright s = cut_at (ustr ''Copyright'') s"
  using sub_cut [of "''Copyright''" None s]
  by (simp add: cut_copyright_def sub_def)

lemma ms_newlines_none:
  assumes "s = [] \<or> hd s \<noteq> 10"
  shows "ms (seqs [Lit 10, Star (Cls [WS]), plus (Lit 10)]) (p, s, g) = []"
proof -
  have "seqs [Lit 10, Star (Cls [WS]), plus (Lit 10)] =
          Seq (Lit 10) (seqs [Star (Cls [WS]), plus (Lit 10)])"
    by (simp add: seqs_def)
  then show ?thesis
    using assms by (cases s) (simp_all add: ms_Lit_Seq)
qed

lemma collapse_newlines_none:
  assumes "10 \<notin> set s"
  shows "collapse_newlines s = s"
proof -
  have "sub_from (seqs [Lit 10, Star (Cls [WS]), plus (Lit 10)]) (\<lambda>m. [10, 10]) p s = s" for p
    using assms
  proof (induction s arbitrary: p)
    case Nil
    then show ?case
      using sub_from_no_match_Nil [OF ms_newlines_none] by simp
  next
    case (Cons c cs)
    then have "ms (seqs [Lit 10, Star (Cls [WS]), plus (Lit 10)]) (p, c # cs, []) = []"
      using ms_newlines_none [of "c # cs"] by simp
    then show ?case
      using sub_from_no_match_Cons Cons by simp
  qed
  then show ?thesis
    by (simp add: collapse_newlines_def sub_def)
qed

subsection \<open>Properties kept by contiguous parts of a text\<close>

lemma successively_sublist:
  assumes "successively R s" and "sublist t s"
  shows "successively R t"
proof -
  obtain ps ss where "s = ps @ t @ ss"
    using assms(2) by (auto simp: sublist_def)
  then show ?thesis
    using assms(1) by (simp add: successively_append_iff)
qed

lemma pair_free_sublist: "pair_free A B s \<Longrightarrow> sublist t s \<Longrightarrow> pair_free A B t"
  unfolding pair_free_def by (rule successively_sublist)

lemma list_all_sublist:
  assumes "list_all P s" and "sublist t s"
  shows "list_all P t"
proof -
  obtain ps ss where "s = ps @ t @ ss"
    using assms(2) by (auto simp: sublist_def)
  then show ?thesis
    using assms(1) by simp
qed

lemma tidy_sublist: "tidy s \<Longrightarrow> sublist t s \<Longrightarrow> tidy t"
  unfolding tidy_def using list_all_sublist pair_free_sublist by blast

lemma not_sublist_sublist: "\<not> sublist w s \<Longrightarrow> sublist t s \<Longrightarrow> \<not> sublist w t"
  using sublist_order.order_trans by blast

subsection \<open>Inserted spaces\<close>

lemma insert_space_Nil [simp]: "insert_space A B s = [] \<longleftrightarrow> s = []"
  by (induction A B s rule: insert_space.induct) auto

lemma insert_space_hd: "s \<noteq> [] \<Longrightarrow> hd (insert_space A B s) = hd s"
  by (induction A B s rule: insert_space.induct) auto

lemma successively_Cons_hd:
  "successively R (x # s) \<longleftrightarrow> (s = [] \<or> (R x (hd s) \<and> successively R s))"
  by (cases s) auto

lemma successively_Cons_insert_space:
  assumes "successively R (b # cs)" and "successively R (insert_space A B cs)"
  shows "successively R (b # insert_space A B cs)"
proof (cases cs)
  case Nil
  then show ?thesis by simp
next
  case (Cons c cs')
  then have "hd (insert_space A B cs) = c"
    using insert_space_hd [of cs A B] by simp
  moreover have "R b c"
    using assms(1) Cons by simp
  ultimately show ?thesis
    using assms(2) Cons by (simp add: successively_Cons_hd)
qed

lemma insert_space_successively:
  "(\<forall>a b. A a \<longrightarrow> B b \<longrightarrow> R a 32 \<and> R 32 b) \<Longrightarrow> successively R s \<Longrightarrow>
     successively R (insert_space A B s)"
proof (induction A B s rule: insert_space.induct)
  case (1 A B a b cs)
  show ?case
  proof (cases "A a \<and> B b")
    case True
    have bcs: "successively R (b # cs)"
      using "1.prems"(2) by simp
    then have "successively R cs"
      by (cases cs) simp_all
    then have "successively R (insert_space A B cs)"
      using 1 True by blast
    then have "successively R (b # insert_space A B cs)"
      using bcs by (rule successively_Cons_insert_space [rotated])
    moreover have "R a 32" "R 32 b"
      using True "1.prems"(1) by blast+
    ultimately show ?thesis
      using True by simp
  next
    case False
    have "successively R (b # cs)" and ab: "R a b"
      using "1.prems"(2) by simp_all
    then have "successively R (insert_space A B (b # cs))"
      using 1 False by blast
    moreover have "hd (insert_space A B (b # cs)) = b"
      using insert_space_hd [of "b # cs" A B] by simp
    ultimately have "successively R (a # insert_space A B (b # cs))"
      using ab by (simp add: successively_Cons_hd)
    then show ?thesis
      using False by auto
  qed
qed auto

lemma insert_space_pair_free:
  "(\<forall>x. \<not> (A x \<and> B x)) \<Longrightarrow> \<not> A 32 \<Longrightarrow> \<not> B 32 \<Longrightarrow> pair_free A B (insert_space A B s)"
  unfolding pair_free_def
proof (induction A B s rule: insert_space.induct)
  case (1 A B a b cs)
  let ?R = "\<lambda>a b. \<not> (A a \<and> B b)"
  show ?case
  proof (cases "A a \<and> B b")
    case True
    have ih: "successively ?R (insert_space A B cs)"
      using 1 True by blast
    have "successively ?R (b # insert_space A B cs)"
    proof (cases cs)
      case Nil
      then show ?thesis by simp
    next
      case (Cons c cs')
      have "\<not> A b" using True "1.prems"(1) by blast
      then show ?thesis
        using ih by (simp add: successively_Cons_hd)
    qed
    then show ?thesis
      using True "1.prems" by simp
  next
    case False
    have ih: "successively ?R (insert_space A B (b # cs))"
      using 1 False by blast
    have "hd (insert_space A B (b # cs)) = b"
      using insert_space_hd [of "b # cs" A B] by simp
    then have "successively ?R (a # insert_space A B (b # cs))"
      using ih False by (simp add: successively_Cons_hd)
    then show ?thesis
      using False by auto
  qed
qed auto

lemma insert_space_fixed: "pair_free A B s \<Longrightarrow> insert_space A B s = s"
  unfolding pair_free_def
  by (induction A B s rule: insert_space.induct) auto

lemma insert_space_list_all:
  "P 32 \<Longrightarrow> list_all P s \<Longrightarrow> list_all P (insert_space A B s)"
  by (induction A B s rule: insert_space.induct) auto

lemma insert_space_tidy:
  assumes "\<And>x. A x \<Longrightarrow> \<not> isspace x" and "\<And>x. B x \<Longrightarrow> \<not> isspace x" and "tidy s"
  shows "tidy (insert_space A B s)"
proof -
  have "successively (\<lambda>a b. \<not> (isspace a \<and> isspace b)) (insert_space A B s)"
    using assms by (intro insert_space_successively) (auto simp: tidy_def pair_free_def)
  moreover have "list_all (\<lambda>c. \<not> isspace c \<or> c = 32) (insert_space A B s)"
    using assms(3) by (intro insert_space_list_all) (auto simp: tidy_def)
  ultimately show ?thesis
    by (simp add: tidy_def pair_free_def)
qed

lemma insert_space_keeps_pair_free:
  assumes "\<not> C 32" and "\<not> D 32" and "pair_free C D s"
  shows "pair_free C D (insert_space A B s)"
  using assms unfolding pair_free_def
  by (intro insert_space_successively) auto

subsection \<open>Shortened runs\<close>

lemma shorten_runs_run:
  "shorten_runs c (c # c # c # rest) = c # c # c # shorten_runs c (dropWhile (\<lambda>y. y = c) rest)"
  by simp

lemma shorten_runs_other:
  "\<not> prefix [c, c, c] (x # xs) \<Longrightarrow> shorten_runs c (x # xs) = x # shorten_runs c xs"
  by (simp del: Cons_prefix_Cons)

lemma prefix3_cases:
  "prefix [c, c, c] s \<longleftrightarrow> (\<exists>rest. s = c # c # c # rest)"
  by (auto simp: prefix_def)

declare shorten_runs.simps(2) [simp del]

lemma shorten_runs_Nil [simp]: "shorten_runs c s = [] \<longleftrightarrow> s = []"
proof (cases s)
  case Nil
  then show ?thesis by simp
next
  case (Cons x xs)
  then show ?thesis
    by (cases "prefix [c, c, c] (x # xs)")
       (auto simp: prefix3_cases shorten_runs_run shorten_runs_other simp del: Cons_prefix_Cons)
qed

lemma shorten_runs_hd: "s \<noteq> [] \<Longrightarrow> hd (shorten_runs c s) = hd s"
proof (cases s)
  case Nil
  then show ?thesis by simp
next
  case (Cons x xs)
  then show ?thesis
    by (cases "prefix [c, c, c] (x # xs)")
       (auto simp: prefix3_cases shorten_runs_run shorten_runs_other simp del: Cons_prefix_Cons)
qed

lemma successively_dropWhile_eq:
  "successively R (c # rest) \<Longrightarrow> dropWhile (\<lambda>y. y = c) rest \<noteq> [] \<Longrightarrow>
     R c (hd (dropWhile (\<lambda>y. y = c) rest))"
  by (induction rest) (auto split: if_splits)

lemma shorten_runs_successively:
  "successively R s \<Longrightarrow> successively R (shorten_runs c s)"
proof (induction c s rule: shorten_runs.induct)
  case (1 c)
  then show ?case by simp
next
  case (2 c x xs)
  show ?case
  proof (cases "prefix [c, c, c] (x # xs)")
    case True
    then obtain rest where s: "x # xs = c # c # c # rest"
      unfolding prefix3_cases by blast
    then have d: "drop 2 xs = rest" by auto
    let ?rest' = "dropWhile (\<lambda>y. y = c) rest"
    have cc: "R c c" and crest: "successively R (c # rest)"
      using "2.prems" s by simp_all
    have "sublist ?rest' (x # xs)"
      unfolding s by (meson sublist_Cons_right sublist_dropWhile)
    then have "successively R ?rest'"
      using "2.prems" successively_sublist by blast
    then have ih: "successively R (shorten_runs c ?rest')"
      using 2(1) [OF True] d by simp
    have "successively R (c # shorten_runs c ?rest')"
    proof (cases "?rest' = []")
      case True
      show ?thesis unfolding True by simp
    next
      case False
      then have "R c (hd ?rest')"
        using successively_dropWhile_eq [OF crest] by simp
      then show ?thesis
        using ih False by (simp add: successively_Cons_hd shorten_runs_hd)
    qed
    then show ?thesis
      unfolding s shorten_runs_run using cc by simp
  next
    case False
    have "successively R (x # shorten_runs c xs)"
    proof (cases xs)
      case Nil
      then show ?thesis by simp
    next
      case (Cons y ys)
      then have "R x y" "successively R xs"
        using "2.prems" by simp_all
      then show ?thesis
        using 2(2) [OF False] Cons shorten_runs_hd [of xs c]
        by (simp add: successively_Cons_hd)
    qed
    then show ?thesis
      using False by (simp add: shorten_runs_other)
  qed
qed

lemma shorten_runs_set: "set (shorten_runs c s) \<subseteq> set s"
proof (induction c s rule: shorten_runs.induct)
  case (1 c)
  then show ?case by simp
next
  case (2 c x xs)
  show ?case
  proof (cases "prefix [c, c, c] (x # xs)")
    case True
    then obtain rest where s: "x # xs = c # c # c # rest"
      unfolding prefix3_cases by blast
    then have d: "drop 2 xs = rest" by auto
    have "set (shorten_runs c (dropWhile (\<lambda>y. y = c) rest)) \<subseteq> set rest"
      using 2(1) [OF True] d set_dropWhileD by fastforce
    then show ?thesis
      unfolding s shorten_runs_run by auto
  next
    case False
    then show ?thesis
      using 2(2) by (auto simp: shorten_runs_other)
  qed
qed

lemma shorten_runs_list_all: "list_all P s \<Longrightarrow> list_all P (shorten_runs c s)"
  using shorten_runs_set [of c s] by (auto simp: list_all_iff)

lemma shorten_runs_tidy: "tidy s \<Longrightarrow> tidy (shorten_runs c s)"
  unfolding tidy_def pair_free_def
  using shorten_runs_list_all shorten_runs_successively by blast

lemma shorten_runs_pair_free: "pair_free A B s \<Longrightarrow> pair_free A B (shorten_runs c s)"
  unfolding pair_free_def by (rule shorten_runs_successively)

lemma prefix_take_iff: "prefix w s \<longleftrightarrow> take (length w) s = w"
proof
  assume "prefix w s"
  then show "take (length w) s = w"
    by (auto simp: prefix_def)
next
  assume "take (length w) s = w"
  then show "prefix w s"
    using take_is_prefix [of "length w" s] by simp
qed

lemma shorten_runs_take: "n \<le> 3 \<Longrightarrow> take n (shorten_runs c s) = take n s"
proof (induction c s arbitrary: n rule: shorten_runs.induct)
  case (1 c)
  then show ?case by simp
next
  case (2 c x xs)
  show ?case
  proof (cases "prefix [c, c, c] (x # xs)")
    case True
    then obtain rest where s: "x # xs = c # c # c # rest"
      unfolding prefix3_cases by blast
    have "n = 0 \<or> n = 1 \<or> n = 2 \<or> n = 3"
      using "2.prems" by arith
    then show ?thesis
      unfolding s shorten_runs_run by (auto simp: numeral_2_eq_2 numeral_3_eq_3)
  next
    case False
    show ?thesis
    proof (cases n)
      case 0
      then show ?thesis by simp
    next
      case (Suc m)
      then have "take m (shorten_runs c xs) = take m xs"
        using 2(2) [OF False, of m] "2.prems" by simp
      then show ?thesis
        using Suc False by (simp add: shorten_runs_other)
    qed
  qed
qed

lemma prefix3_shorten_runs: "prefix [c, c, c] (shorten_runs c s) \<longleftrightarrow> prefix [c, c, c] s"
proof -
  have e: "take (length [c, c, c]) (shorten_runs c s) = take (length [c, c, c]) s"
    by (rule shorten_runs_take) simp
  show ?thesis
    unfolding prefix_take_iff e by (rule refl)
qed

lemma not_c_after_run:
  "shorten_runs c (dropWhile (\<lambda>y. y = c) rest) = [] \<or>
   hd (shorten_runs c (dropWhile (\<lambda>y. y = c) rest)) \<noteq> c"
proof (cases "dropWhile (\<lambda>y. y = c) rest = []")
  case True
  show ?thesis unfolding True by simp
next
  case False
  then have "hd (dropWhile (\<lambda>y. y = c) rest) \<noteq> c"
    using hd_dropWhile [of "\<lambda>y. y = c" rest] by simp
  then show ?thesis
    using False by (simp add: shorten_runs_hd)
qed

lemma no_four_after_three:
  assumes "t = [] \<or> hd t \<noteq> c" and "\<not> sublist [c, c, c, c] t"
  shows "\<not> sublist [c, c, c, c] (c # c # c # t)"
  using assms by (cases t) (auto simp: sublist_Cons_right)

lemma shorten_runs_no_four: "\<not> sublist [c, c, c, c] (shorten_runs c s)"
proof (induction c s rule: shorten_runs.induct)
  case (1 c)
  then show ?case by simp
next
  case (2 c x xs)
  show ?case
  proof (cases "prefix [c, c, c] (x # xs)")
    case True
    then obtain rest where s: "x # xs = c # c # c # rest"
      unfolding prefix3_cases by blast
    then have d: "drop 2 xs = rest" by auto
    have "\<not> sublist [c, c, c, c] (shorten_runs c (dropWhile (\<lambda>y. y = c) rest))"
      using 2(1) [OF True] d by simp
    then show ?thesis
      unfolding s shorten_runs_run
      by (rule no_four_after_three [OF not_c_after_run])
  next
    case False
    have "\<not> prefix [c, c, c, c] (x # shorten_runs c xs)"
    proof
      assume "prefix [c, c, c, c] (x # shorten_runs c xs)"
      then have "x = c" and "prefix [c, c, c] (shorten_runs c xs)"
        by auto
      then have "prefix [c, c, c] xs"
        by (simp only: prefix3_shorten_runs)
      then have "prefix [c, c, c] (x # xs)"
        using \<open>x = c\<close> by (auto simp: prefix_def)
      then show False using False by blast
    qed
    then show ?thesis
      using 2(2) [OF False] False by (simp add: shorten_runs_other sublist_Cons_right)
  qed
qed

lemma prefix_shorten_runs_other:
  "prefix w (shorten_runs c s) \<Longrightarrow> c \<notin> set w \<Longrightarrow> prefix w s"
proof (induction c s arbitrary: w rule: shorten_runs.induct)
  case (1 c)
  then show ?case by simp
next
  case (2 c x xs)
  show ?case
  proof (cases "prefix [c, c, c] (x # xs)")
    case True
    then obtain rest where s: "x # xs = c # c # c # rest"
      unfolding prefix3_cases by blast
    have "w = []"
      using "2.prems" unfolding s shorten_runs_run by (cases w) auto
    then show ?thesis by simp
  next
    case False
    show ?thesis
    proof (cases w)
      case Nil
      then show ?thesis by simp
    next
      case (Cons y w')
      then have "y = x" and "prefix w' (shorten_runs c xs)" and "c \<notin> set w'"
        using "2.prems" False by (simp_all add: shorten_runs_other)
      then show ?thesis
        using 2(2) [OF False] Cons by simp
    qed
  qed
qed

lemma sublist_shorten_runs_other:
  "sublist w (shorten_runs c s) \<Longrightarrow> c \<notin> set w \<Longrightarrow> w \<noteq> [] \<Longrightarrow> sublist w s"
proof (induction c s rule: shorten_runs.induct)
  case (1 c)
  then show ?case by simp
next
  case step: (2 c x xs)
  show ?case
  proof (cases "prefix [c, c, c] (x # xs)")
    case True
    then obtain rest where s: "x # xs = c # c # c # rest"
      unfolding prefix3_cases by blast
    then have d: "drop 2 xs = rest" by auto
    let ?t = "shorten_runs c (dropWhile (\<lambda>y. y = c) rest)"
    have np: "\<not> prefix w (c # u)" for u
      using step.prems(2,3) by (cases w) auto
    have "sublist w (c # c # c # ?t)"
      using step.prems(1) unfolding s shorten_runs_run .
    then have "sublist w ?t"
      using np by (simp add: sublist_Cons_right)
    then have "sublist w (dropWhile (\<lambda>y. y = c) rest)"
      using step.IH(1) [OF True] d step.prems(2,3) by simp
    moreover have "sublist (dropWhile (\<lambda>y. y = c) rest) (x # xs)"
      unfolding s by (meson sublist_Cons_right sublist_dropWhile)
    ultimately show ?thesis
      using sublist_order.order_trans by blast
  next
    case False
    have "sublist w (x # shorten_runs c xs)"
      using step.prems(1) False by (simp add: shorten_runs_other)
    then consider "prefix w (x # shorten_runs c xs)" | "sublist w (shorten_runs c xs)"
      by (auto simp: sublist_Cons_right)
    then show ?thesis
    proof cases
      case 1
      then have "prefix w (shorten_runs c (x # xs))"
        using False by (simp add: shorten_runs_other)
      then have "prefix w (x # xs)"
        using step.prems(2) by (rule prefix_shorten_runs_other)
      then show ?thesis by (rule prefix_imp_sublist)
    next
      case 2
      then have "sublist w xs"
        using step.IH(2) [OF False] step.prems(2,3) by simp
      then show ?thesis
        by (simp add: sublist_Cons_right)
    qed
  qed
qed

lemma shorten_runs_fixed: "\<not> sublist [c, c, c, c] s \<Longrightarrow> shorten_runs c s = s"
proof (induction c s rule: shorten_runs.induct)
  case (1 c)
  then show ?case by simp
next
  case (2 c x xs)
  show ?case
  proof (cases "prefix [c, c, c] (x # xs)")
    case True
    then obtain rest where s: "x # xs = c # c # c # rest"
      unfolding prefix3_cases by blast
    then have d: "drop 2 xs = rest" by auto
    have "\<not> prefix [c, c, c, c] (c # c # c # rest)"
      using "2.prems" unfolding s using prefix_imp_sublist by blast
    then have "rest = [] \<or> hd rest \<noteq> c"
      by (cases rest) auto
    then have dw: "dropWhile (\<lambda>y. y = c) rest = rest"
      by (cases rest) auto
    have "\<not> sublist [c, c, c, c] rest"
      using "2.prems" unfolding s by (simp add: sublist_Cons_right)
    then have "shorten_runs c rest = rest"
      using 2(1) [OF True] d dw by simp
    then show ?thesis
      unfolding s shorten_runs_run dw by simp
  next
    case False
    have "\<not> sublist [c, c, c, c] xs"
      using "2.prems" by (simp add: sublist_Cons_right)
    then show ?thesis
      using 2(2) [OF False] False by (simp add: shorten_runs_other)
  qed
qed

subsection \<open>The cut at the copyright marker\<close>

lemma cut_at_prefix: "prefix (cut_at w s) s"
  by (induction s) auto

lemma cut_at_no_occurrence: "w \<noteq> [] \<Longrightarrow> \<not> sublist w (cut_at w s)"
proof (induction s)
  case Nil
  then show ?case by simp
next
  case (Cons c cs)
  show ?case
  proof (cases "prefix w (c # cs)")
    case True
    then show ?thesis using Cons.prems by simp
  next
    case False
    have "\<not> prefix w (c # cut_at w cs)"
    proof
      assume "prefix w (c # cut_at w cs)"
      moreover have "prefix (c # cut_at w cs) (c # cs)"
        using cut_at_prefix [of w cs] by simp
      ultimately have "prefix w (c # cs)"
        by (rule prefix_order.trans)
      then show False using False by blast
    qed
    then show ?thesis
      using False Cons by (simp add: sublist_Cons_right del: Cons_prefix_Cons)
  qed
qed

lemma cut_at_fixed: "\<not> sublist w s \<Longrightarrow> cut_at w s = s"
proof (induction s)
  case Nil
  then show ?case by simp
next
  case (Cons c cs)
  then have "\<not> prefix w (c # cs)" and "\<not> sublist w cs"
    by (auto simp: sublist_Cons_right)
  then show ?case
    using Cons.IH by (simp del: Cons_prefix_Cons)
qed

subsection \<open>Replaced runs of whitespace\<close>

lemma replace_runs_hd:
  "\<not> P x \<Longrightarrow> replace_runs P r (x # xs) = x # replace_runs P r xs"
  by simp

lemma replace_runs_after_run:
  "replace_runs P r (dropWhile P cs) = [] \<or> \<not> P (hd (replace_runs P r (dropWhile P cs)))"
proof (cases "dropWhile P cs")
  case Nil
  show ?thesis unfolding Nil by simp
next
  case (Cons y ys)
  then have "\<not> P y"
    using hd_dropWhile [of P cs] by simp
  then show ?thesis
    unfolding Cons by simp
qed

lemma replace_runs_tidy: "tidy (replace_runs isspace [32] s)"
proof (induction "isspace" "[32::nat]" s rule: replace_runs.induct)
  case 1
  then show ?case by (simp add: tidy_def pair_free_def)
next
  case (2 c cs)
  show ?case
  proof (cases "isspace c")
    case True
    let ?t = "replace_runs isspace [32] (dropWhile isspace cs)"
    have t: "tidy ?t" using 2(1) [OF True] .
    have "?t = [] \<or> \<not> isspace (hd ?t)"
      by (rule replace_runs_after_run)
    then have "tidy (32 # ?t)"
      using t by (auto simp: tidy_def pair_free_def successively_Cons_hd)
    then show ?thesis
      using True by simp
  next
    case False
    let ?t = "replace_runs isspace [32] cs"
    have t: "tidy ?t" using 2(2) [OF False] .
    have "tidy (c # ?t)"
      using t False by (auto simp: tidy_def pair_free_def successively_Cons_hd)
    then show ?thesis
      using False by simp
  qed
qed

lemma replace_runs_fixed:
  "list_all (\<lambda>c. \<not> Q c \<or> c = 32) s \<Longrightarrow> pair_free Q Q s \<Longrightarrow> replace_runs Q [32] s = s"
proof (induction Q "[32::nat]" s rule: replace_runs.induct)
  case (1 Q)
  then show ?case by simp
next
  case (2 Q c cs)
  have la: "list_all (\<lambda>c. \<not> Q c \<or> c = 32) cs" and pf: "pair_free Q Q cs"
    using "2.prems" by (cases cs; simp add: pair_free_def)+
  show ?case
  proof (cases "Q c")
    case True
    then have c: "c = 32" using "2.prems"(1) by simp
    have "cs = [] \<or> \<not> Q (hd cs)"
      using "2.prems"(2) True by (cases cs) (auto simp: pair_free_def)
    then have dw: "dropWhile Q cs = cs"
      by (cases cs) auto
    have "replace_runs Q [32] cs = cs"
      using 2(1) [OF True] la pf dw by simp
    then show ?thesis
      using True c dw by simp
  next
    case False
    then show ?thesis
      using 2(2) [OF False] la pf by simp
  qed
qed

subsection \<open>Stripping\<close>

lemma rstrip_chars_prefix: "prefix (rstrip_chars P s) s"
proof -
  have "rev s = takeWhile P (rev s) @ dropWhile P (rev s)"
    by simp
  then have "s = rev (dropWhile P (rev s)) @ rev (takeWhile P (rev s))"
    by (metis rev_append rev_rev_ident)
  then show ?thesis
    unfolding rstrip_chars_def by (metis prefixI)
qed

lemma strip_sublist: "sublist (strip s) s"
proof -
  have "sublist (strip s) (dropWhile isspace s)"
    unfolding strip_def lstrip_chars_def using rstrip_chars_prefix by blast
  then show ?thesis
    using sublist_dropWhile sublist_order.order_trans by blast
qed

lemma rstrip_chars_idem: "rstrip_chars P (rstrip_chars P s) = rstrip_chars P s"
  by (simp add: rstrip_chars_def)

lemma lstrip_rstrip:
  assumes "s = [] \<or> \<not> P (hd s)"
  shows "dropWhile P (rstrip_chars P s) = rstrip_chars P s"
proof (cases "rstrip_chars P s")
  case Nil
  then show ?thesis by simp
next
  case (Cons y ys)
  have "prefix (y # ys) s"
    using rstrip_chars_prefix [of P s] Cons by simp
  then have "s \<noteq> []" and "hd s = y"
    by (auto simp: prefix_def)
  then show ?thesis
    using assms Cons by simp
qed

lemma strip_idem: "strip (strip s) = strip s"
proof -
  let ?d = "dropWhile isspace s"
  have "?d = [] \<or> \<not> isspace (hd ?d)"
    using hd_dropWhile [of isspace s] by blast
  then have "dropWhile isspace (rstrip_chars isspace ?d) = rstrip_chars isspace ?d"
    by (rule lstrip_rstrip)
  then show ?thesis
    by (simp add: strip_def lstrip_chars_def rstrip_chars_idem)
qed

lemma lower_not_space: "is_lower x \<Longrightarrow> \<not> isspace x"
  unfolding is_lower_def isspace_def by arith

lemma upper_not_space: "is_upper x \<Longrightarrow> \<not> isspace x"
  unfolding is_upper_def isspace_def by arith

lemma stop_not_space: "is_stop x \<Longrightarrow> \<not> isspace x"
  unfolding is_stop_def isspace_def by arith

lemma space_no_class: "\<not> is_lower 32" "\<not> is_upper 32" "\<not> is_stop 32"
  by (simp_all add: is_lower_def is_upper_def is_stop_def)

lemma class_disjoint:
  "\<forall>x. \<not> (is_lower x \<and> is_upper x)" "\<forall>x. \<not> (is_stop x \<and> is_upper x)"
  unfolding is_lower_def is_upper_def is_stop_def by arith+

lemmas class_facts = lower_not_space upper_not_space stop_not_space space_no_class

lemma tidy_chars: "tidy s \<Longrightarrow> c \<in> set s \<Longrightarrow> isspace c \<Longrightarrow> c = 32"
  by (auto simp: tidy_def list_all_iff)

lemma tidy_collapse_ws: "tidy s \<Longrightarrow> collapse_ws s = s"
  unfolding collapse_ws_runs ustr_def
  by (simp add: tidy_def replace_runs_fixed)

lemma isspace_10: "isspace 10"
  by (simp add: isspace_def)

lemma isspace_9: "isspace 9"
  by (simp add: isspace_def)

lemma tidy_collapse_newlines:
  assumes "tidy s"
  shows "collapse_newlines s = s"
proof -
  have "10 \<notin> set s"
    using tidy_chars [OF assms, of 10] isspace_10 by auto
  then show ?thesis
    by (rule collapse_newlines_none)
qed

lemma blank_space: "c = 32 \<or> c = 9 \<Longrightarrow> isspace c"
  using isspace_9 by (auto simp: isspace_def)

lemma tidy_collapse_blanks:
  assumes "tidy s"
  shows "collapse_blanks s = s"
proof -
  have "\<not> (c = 32 \<or> c = 9) \<or> c = 32" if "c \<in> set s" for c
    using tidy_chars [OF assms that] blank_space by blast
  then have "list_all (\<lambda>c. \<not> (c = 32 \<or> c = 9) \<or> c = 32) s"
    unfolding list_all_iff by blast
  moreover have "successively (\<lambda>a b. \<not> ((a = 32 \<or> a = 9) \<and> (b = 32 \<or> b = 9))) s"
  proof (rule successively_mono [of "\<lambda>a b. \<not> (isspace a \<and> isspace b)"])
    show "successively (\<lambda>a b. \<not> (isspace a \<and> isspace b)) s"
      using assms by (simp add: tidy_def pair_free_def)
  next
    fix a b
    assume "\<not> (isspace a \<and> isspace b)"
    then show "\<not> ((a = 32 \<or> a = 9) \<and> (b = 32 \<or> b = 9))"
      using blank_space by blast
  qed
  ultimately show ?thesis
    unfolding collapse_blanks_runs ustr_def pair_free_def [symmetric]
    by (simp add: replace_runs_fixed)
qed

lemma normal_text_fixed:
  assumes "normal_text t"
  shows "normalize_text t = t"
proof -
  have t: "tidy t" and "pair_free is_lower is_upper t" and "pair_free is_stop is_upper t"
    and "\<not> sublist [46, 46, 46, 46] t" and "\<not> sublist [45, 45, 45, 45] t"
    and "\<not> sublist (ustr ''Copyright'') t" and "strip t = t"
    using assms by (simp_all add: normal_text_def)
  then show ?thesis
    unfolding normalize_text_def
    by (simp add: tidy_collapse_ws tidy_collapse_newlines tidy_collapse_blanks
        space_camel_case_insert space_after_sentence_insert insert_space_fixed
        collapse_dots_runs collapse_dashes_runs shorten_runs_fixed
        cut_copyright_cut cut_at_fixed)
qed

lemma normalize_text_normal: "normal_text (normalize_text s)"
proof -
  define y1 where "y1 = collapse_ws s"
  define y2 where "y2 = insert_space is_lower is_upper y1"
  define y3 where "y3 = insert_space is_stop is_upper y2"
  define y4 where "y4 = shorten_runs 46 y3"
  define y5 where "y5 = shorten_runs 45 y4"
  define y6 where "y6 = cut_at (ustr ''Copyright'') y5"
  have t1: "tidy y1"
    unfolding y1_def collapse_ws_runs ustr_def using replace_runs_tidy by simp
  have n: "normalize_text s = strip y6"
    unfolding normalize_text_def y6_def y5_def y4_def y3_def y2_def
    using t1 unfolding y1_def
    by (simp add: tidy_collapse_newlines tidy_collapse_blanks
        space_camel_case_insert space_after_sentence_insert
        collapse_dots_runs collapse_dashes_runs cut_copyright_cut)
  have disj: "\<forall>x. \<not> (is_lower x \<and> is_upper x)" "\<forall>x. \<not> (is_stop x \<and> is_upper x)"
    by (rule class_disjoint)+
  have t2: "tidy y2"
    unfolding y2_def by (rule insert_space_tidy [OF _ _ t1]) (simp_all add: class_facts)
  have c2: "pair_free is_lower is_upper y2"
    unfolding y2_def by (rule insert_space_pair_free [OF disj(1)]) (simp_all add: class_facts)
  have t3: "tidy y3"
    unfolding y3_def by (rule insert_space_tidy [OF _ _ t2]) (simp_all add: class_facts)
  have c3: "pair_free is_lower is_upper y3"
    unfolding y3_def by (rule insert_space_keeps_pair_free [OF _ _ c2]) (simp_all add: class_facts)
  have s3: "pair_free is_stop is_upper y3"
    unfolding y3_def by (rule insert_space_pair_free [OF disj(2)]) (simp_all add: class_facts)
  have t4: "tidy y4" and c4: "pair_free is_lower is_upper y4"
    and s4: "pair_free is_stop is_upper y4" and d4: "\<not> sublist [46, 46, 46, 46] y4"
    unfolding y4_def
    using t3 c3 s3 by (simp_all add: shorten_runs_tidy shorten_runs_pair_free shorten_runs_no_four)
  have t5: "tidy y5" and c5: "pair_free is_lower is_upper y5"
    and s5: "pair_free is_stop is_upper y5" and h5: "\<not> sublist [45, 45, 45, 45] y5"
    unfolding y5_def
    using t4 c4 s4 by (simp_all add: shorten_runs_tidy shorten_runs_pair_free shorten_runs_no_four)
  have d5: "\<not> sublist [46, 46, 46, 46] y5"
    unfolding y5_def using d4 sublist_shorten_runs_other [of "[46, 46, 46, 46]" 45 y4] by auto
  have sub6: "sublist y6 y5"
    unfolding y6_def using cut_at_prefix by blast
  have k6: "\<not> sublist (ustr ''Copyright'') y6"
    unfolding y6_def by (rule cut_at_no_occurrence) (simp add: ustr_def)
  have sub7: "sublist (strip y6) y5"
    using strip_sublist sub6 sublist_order.order_trans by blast
  have "tidy (strip y6)" "pair_free is_lower is_upper (strip y6)"
    "pair_free is_stop is_upper (strip y6)"
    "\<not> sublist [46, 46, 46, 46] (strip y6)" "\<not> sublist [45, 45, 45, 45] (strip y6)"
    using sub7 t5 c5 s5 d5 h5 tidy_sublist pair_free_sublist not_sublist_sublist by blast+
  moreover have "\<not> sublist (ustr ''Copyright'') (strip y6)"
    using k6 strip_sublist not_sublist_sublist by blast
  ultimately show ?thesis
    unfolding n normal_text_def by (simp add: strip_idem)
qed

lemma normalize_text_idem: "normalize_text (normalize_text s) = normalize_text s"
  by (rule normal_text_fixed [OF normalize_text_normal])

lemma scan_no_pieces:
  "fst (scan r must p s) = [] \<Longrightarrow> snd (scan r must p s) = s"
proof (induction s arbitrary: must p)
  case Nil
  then show ?case
    by (auto simp: scan.simps [of r must p "[]"] split: option.splits prod.splits if_splits)
next
  case (Cons c cs)
  show ?case
  proof (cases "pick must (p, c # cs, []) (ms r (p, c # cs, []))")
    case None
    obtain pieces rest where sc: "scan r False (Some c) cs = (pieces, rest)"
      by (cases "scan r False (Some c) cs")
    have "pieces = []"
      using Cons.prems None sc
      by (cases pieces) (auto simp: scan.simps [of r must p "c # cs"])
    then have "rest = cs"
      using Cons.IH [of False "Some c"] sc by simp
    then show ?thesis
      using None sc \<open>pieces = []\<close> by (simp add: scan.simps [of r must p "c # cs"])
  next
    case (Some st)
    obtain p' s' g where st: "st = (p', s', g)" by (cases st)
    show ?thesis
      using Cons.prems Some st
      by (auto simp: scan.simps [of r must p "c # cs"] split: prod.splits if_splits)
  qed
qed

lemma sub_no_match:
  assumes "search r s = None"
  shows "sub r f s = s"
proof -
  obtain pieces rest where sc: "scan r False None s = (pieces, rest)"
    by (cases "scan r False None s")
  have "pieces = []"
    using assms sc by (auto simp: search_def finditer_def split: list.splits)
  then have "rest = s"
    using scan_no_pieces [of r False None s] sc by simp
  then show ?thesis
    using sc \<open>pieces = []\<close> by (simp add: sub_def sub_from_def)
qed

lemma foldl_sub_no_match:
  "list_all (\<lambda>p. search p t = None) ps \<Longrightarrow> foldl (\<lambda>text pattern. sub pattern f text) t ps = t"
  by (induction ps) (simp_all add: sub_no_match)

lemma strip_navigation_no_match:
  "list_all (\<lambda>p. search p t = None) NAVIGATION_PATTERNS \<Longrightarrow> strip_navigation t = t"
  unfolding strip_navigation_def by (rule foldl_sub_no_match)

lemma normalize_text_Nil: "normalize_text [] = []"
  using normal_text_fixed [of "[]"]
  by (simp add: normal_text_def tidy_def pair_free_def strip_def rstrip_chars_def lstrip_chars_def ustr_def)

lemma clean_text_fixed:
  assumes "strip_navigation (clean_text s) = clean_text s"
  shows "clean_text (clean_text s) = clean_text s"
proof (cases "s = []")
  case True
  then show ?thesis by (simp add: clean_text_def)
next
  case False
  then have c: "clean_text s = normalize_text (strip_navigation s)"
    by (simp add: clean_text_def)
  show ?thesis
  proof (cases "clean_text s = []")
    case True
    then show ?thesis by (simp add: clean_text_def)
  next
    case False
    then have "clean_text (clean_text s) = normalize_text (strip_navigation (clean_text s))"
      by (simp add: clean_text_def)
    also have "\<dots> = normalize_text (clean_text s)"
      using assms by simp
    also have "\<dots> = clean_text s"
      unfolding c by (rule normalize_text_idem)
    finally show ?thesis .
  qed
qed

lemma strip_navigation_fixed:
  "no_navigation_match t \<Longrightarrow> strip_navigation t = t"
  unfolding no_navigation_match_def by (rule strip_navigation_no_match)

lemma back_nav: "strip_navigation (ustr ''Back toTop'') = ustr ''Back toTop''"
  by (simp add: strip_navigation_def NAVIGATION_PATTERNS_def re_eval ms.simps)

lemma back_norm: "normalize_text (ustr ''Back toTop'') = ustr ''Back to Top''"
  by (simp add: normalize_eval re_eval ms.simps)

lemma back_nav2: "strip_navigation (ustr ''Back to Top'') = []"
  by (simp add: strip_navigation_def NAVIGATION_PATTERNS_def re_eval ms.simps)

lemma back_clean: "clean_text (ustr ''Back toTop'') = ustr ''Back to Top''"
  by (simp add: clean_text_def back_nav back_norm ustr_nonempty)

lemma back_clean2: "clean_text (ustr ''Back to Top'') = []"
  by (simp add: clean_text_def back_nav2 normalize_text_Nil ustr_nonempty)

lemma back_no_marker: "no_navigation_match (ustr ''Back toTop'')"
  by (simp add: no_navigation_match_def NAVIGATION_PATTERNS_def re_eval ms.simps)

lemma back_no_copyright: "cut_copyright (ustr ''Back toTop'') = ustr ''Back toTop''"
  by (simp add: cut_copyright_def re_eval ms.simps)

lemma drug_nav: "strip_navigation (ustr ''Use  drugX.Now'') = ustr ''Use  drugX.Now''"
  by (simp add: strip_navigation_def NAVIGATION_PATTERNS_def re_eval ms.simps)

lemma drug_norm: "normalize_text (ustr ''Use  drugX.Now'') = ustr ''Use drug X. Now''"
  by (simp add: normalize_eval re_eval ms.simps)

lemma drug_no_marker: "no_navigation_match (ustr ''Use drug X. Now'')"
  by (simp add: no_navigation_match_def NAVIGATION_PATTERNS_def re_eval ms.simps)

lemma drug_clean: "clean_text (ustr ''Use  drugX.Now'') = ustr ''Use drug X. Now''"
  by (simp add: clean_text_def drug_nav drug_norm ustr_nonempty)

text \<open>
  Claim C1, as amended. \<open>clean_text (clean_text s) = clean_text s\<close> for every string \<open>s\<close>
  whose cleaned form \<open>clean_text s\<close> contains no match of a navigation pattern.
\<close>

theorem clean_text_idempotent_without_boilerplate:
  assumes "no_navigation_match (clean_text s)"
  shows "clean_text (clean_text s) = clean_text s"
  by (rule clean_text_fixed [OF strip_navigation_fixed [OF assms]])

theorem clean_text_idempotent_without_boilerplate_witness:
  "no_navigation_match (clean_text (ustr ''Use  drugX.Now'')) \<and>
   clean_text (clean_text (ustr ''Use  drugX.Now'')) = clean_text (ustr ''Use  drugX.Now'')"
proof -
  have h: "no_navigation_match (clean_text (ustr ''Use  drugX.Now''))"
    unfolding drug_clean by (rule drug_no_marker)
  show ?thesis
    using clean_text_idempotent_without_boilerplate [OF h] h by simp
qed

text \<open>
  The claim as stated fails, also for an input that contains no boilerplate and no
  copyright marker: the cleaner puts a space into \<open>Back toTop\<close>, which makes it the
  navigation text \<open>Back to Top\<close>, and the second pass removes that.
\<close>

theorem clean_text_not_idempotent:
  "no_navigation_match (ustr ''Back toTop'') \<and>
   cut_copyright (ustr ''Back toTop'') = ustr ''Back toTop'' \<and>
   clean_text (clean_text (ustr ''Back toTop'')) \<noteq> clean_text (ustr ''Back toTop'')"
  using ustr_nonempty [of "CHR ''B''" "''ack to Top''"]
  by (simp add: back_no_marker back_no_copyright back_clean back_clean2)

end
